theory Spec2Isabelle
  imports
    Complex_Main
    "HOL-Library.Word"
    "HOL-Library.Sublist"
    "HOL-Library.Char_ord"
    "HOL-Library.List_Lexorder"
begin

section \<open>Data model\<close>

text \<open>
  A file is a sequence of bytes; the scratch directory is a finite map from paths to file
  contents. Python strings are modelled as Isabelle strings (byte sequences; the three
  non-ASCII characters of the status messages are written as their UTF-8 bytes).
\<close>

type_synonym bytes = "8 word list"

type_synonym filesystem = "string \<rightharpoonup> bytes"

text \<open>The two module-level limits of \<^verbatim>\<open>bot.py\<close> (lines 26 and 27).\<close>

definition TG_SIZE_LIMIT :: nat where
  "TG_SIZE_LIMIT = 50 * 1024 * 1024"

definition CHUNK_SIZE :: int where
  "CHUNK_SIZE = 48 * 1024 * 1024"

section \<open>Formatting helpers\<close>

definition digit_char :: "nat \<Rightarrow> char" where
  "digit_char n = char_of (48 + n)"

text \<open>Decimal rendering of a non-negative Python integer, as \<^verbatim>\<open>str(n)\<close> gives it.\<close>

function str_nat :: "nat \<Rightarrow> string" where
  "str_nat n = (if n < 10 then [digit_char n] else str_nat (n div 10) @ [digit_char (n mod 10)])"
  by pat_completeness auto
termination
  by (relation "measure id") auto

declare str_nat.simps [simp del]

text \<open>
  The format specification \<^verbatim>\<open>{idx:03d}\<close>: the decimal digits, padded on the left with
  zeros up to a minimum width of three. A longer number is not truncated.
\<close>

definition fmt03d :: "nat \<Rightarrow> string" where
  "fmt03d n = replicate (3 - length (str_nat n)) (CHR ''0'') @ str_nat n"

text \<open>Line 96: \<^verbatim>\<open>part_path = f"{path}.part{idx:03d}"\<close>.\<close>

definition part_path :: "string \<Rightarrow> nat \<Rightarrow> string" where
  "part_path path idx = path @ ''.part'' @ fmt03d idx"

text \<open>\<^verbatim>\<open>os.path.basename\<close>: everything after the last slash.\<close>

definition basename :: "string \<Rightarrow> string" where
  "basename p = rev (takeWhile (\<lambda>c. c \<noteq> CHR ''/'') (rev p))"

text \<open>The text of the exception raised when a path that does not exist is opened or measured.\<close>

definition no_such_file :: "string \<Rightarrow> string" where
  "no_such_file p = ''[Errno 2] No such file or directory: '' @ [CHR 0x27] @ p @ [CHR 0x27]"

section \<open>The segmenter\<close>

text \<open>
  \<^verbatim>\<open>f.read(n)\<close> on a binary file (64-bit CPython), applied to the bytes that are left.
  The count \<open>-1\<close> reads everything; a count below \<open>-1\<close> raises \<^verbatim>\<open>ValueError\<close>. A count
  from \<open>2\<^sup>6\<^sup>3\<close> on does not fit the integer type of the argument and raises
  \<^verbatim>\<open>OverflowError\<close>. A count from \<open>2\<^sup>6\<^sup>3 - 33\<close> on is more than a bytes object can hold (its
  33 bytes of header and terminator count against the limit \<open>2\<^sup>6\<^sup>3 - 1\<close>), and the reader,
  which allocates the buffer for the whole count before it reads, raises \<^verbatim>\<open>OverflowError\<close>
  with another text. Any other count reads at most that many bytes. The result is the
  text of the exception or the bytes read. Running out of memory for the buffer, like
  running out of disk space for a part, is not part of the model.
\<close>

definition py_read :: "int \<Rightarrow> bytes \<Rightarrow> string + bytes" where
  "py_read n rest =
     (if n < - 1 then Inl ''read length must be non-negative or -1''
      else if n = - 1 then Inr rest
      else if 2 ^ 63 \<le> n then
        Inl (''cannot fit '' @ [CHR 0x27] @ ''int'' @ [CHR 0x27] @ '' into an index-sized integer'')
      else if 2 ^ 63 - 33 \<le> n then Inl ''byte string is too large''
      else Inr (take (nat n) rest))"

definition contents :: "filesystem \<Rightarrow> string \<Rightarrow> bytes" where
  "contents fs p = (case fs p of None \<Rightarrow> [] | Some d \<Rightarrow> d)"

text \<open>
  The loop of \<^verbatim>\<open>split_file\<close> (lines 92 to 100). The source file stays open at read
  position \<open>pos\<close> while the part files are written into the same file system, so every
  read looks at the file system as the writes so far have left it. An exception from the
  read ends the loop; the result then carries the text of the exception and the file
  system as it is at that moment.
\<close>

function split_loop ::
  "string \<Rightarrow> int \<Rightarrow> filesystem \<Rightarrow> nat \<Rightarrow> nat \<Rightarrow> string list \<Rightarrow>
     (string \<times> filesystem) + (string list \<times> filesystem)" where
  "split_loop path chunk_size fs pos idx parts =
     (case py_read chunk_size (drop pos (contents fs path)) of
        Inl cause \<Rightarrow> Inl (cause, fs)
      | Inr chunk \<Rightarrow>
          if chunk = [] then Inr (parts, fs)
          else split_loop path chunk_size (fs(part_path path idx \<mapsto> chunk))
                 (pos + length chunk) (Suc idx) (parts @ [part_path path idx]))"
  by pat_completeness auto
termination
proof (relation "measure (\<lambda>(path, chunk_size, fs, pos, idx, parts). length (contents fs path) - pos)")
  show "wf (measure (\<lambda>(path, chunk_size, fs, pos, idx, parts). length (contents fs path) - pos))"
    by simp
next
  fix path :: string and chunk_size :: int and fs :: filesystem and pos idx :: nat
    and parts :: "string list" and chunk :: bytes
  assume rd: "py_read chunk_size (drop pos (contents fs path)) = Inr chunk"
    and ne: "chunk \<noteq> []"
  have same: "contents (fs(part_path path idx \<mapsto> chunk)) path = contents fs path"
    by (simp add: contents_def part_path_def)
  have "drop pos (contents fs path) \<noteq> []"
    using rd ne by (auto simp: py_read_def split: if_splits)
  then have "pos < length (contents fs path)"
    by simp
  moreover have "length chunk \<noteq> 0"
    using ne by simp
  ultimately have "length (contents fs path) - (pos + length chunk) < length (contents fs path) - pos"
    by arith
  then show
    "((path, chunk_size, fs(part_path path idx \<mapsto> chunk), pos + length chunk, Suc idx,
       parts @ [part_path path idx]),
      (path, chunk_size, fs, pos, idx, parts))
     \<in> measure (\<lambda>(path, chunk_size, fs, pos, idx, parts). length (contents fs path) - pos)"
    using same by simp
qed

declare split_loop.simps [simp del]

text \<open>
  \<^verbatim>\<open>split_file\<close> (lines 88 to 101). Opening a source that does not exist raises, and so
  does a read that refuses the chunk size; otherwise the list of part paths is returned
  and the part files are on disk.
\<close>

definition split_file ::
  "filesystem \<Rightarrow> string \<Rightarrow> int \<Rightarrow> (string \<times> filesystem) + (string list \<times> filesystem)" where
  "split_file fs path chunk_size =
     (case fs path of
        None \<Rightarrow> Inl (no_such_file path, fs)
      | Some _ \<Rightarrow> split_loop path chunk_size fs 0 1 [])"

section \<open>The delivery orchestrator\<close>

text \<open>
  What a request does to the outside world, in the order it happens: the call that sends
  the first status message (\<^verbatim>\<open>reply_text\<close>), every later call that edits that status
  message (\<^verbatim>\<open>edit_text\<close>), every attempted attachment upload (\<^verbatim>\<open>send_document\<close>, with
  the file name and the bytes handed to the transport) and every attempted
  \<^verbatim>\<open>os.remove\<close>. A call is recorded whether it returns or raises.
\<close>

datatype event =
    ReplyText string
  | EditText string
  | SendDocument string bytes
  | Remove string

record world =
  disk :: filesystem
  trace :: "event list"

text \<open>
  The collaborators the handler calls and does not implement. \<open>fetch\<close> is
  \<^verbatim>\<open>download_with_ytdlp\<close>: the cause text of the exception it raised, or the path it
  returned. \<open>transport\<close> is \<^verbatim>\<open>context.bot.send_document\<close>: \<open>None\<close> when the upload went
  through, the cause text when it raised. \<open>locked\<close> marks the paths on which
  \<^verbatim>\<open>os.remove\<close> raises although the file is there.
\<close>

record env =
  fetch :: "string \<Rightarrow> string + string"
  transport :: "string \<Rightarrow> bytes \<Rightarrow> string option"
  locked :: "string \<Rightarrow> bool"

text \<open>
  The reply target, as the two text-message calls see it: for the text handed to
  \<^verbatim>\<open>reply_text\<close> or \<^verbatim>\<open>edit_text\<close>, \<open>None\<close> when the call returns and the cause text when
  it raises.
\<close>

type_synonym reply_sink = "string \<Rightarrow> string option"

text \<open>
  The handler returns nothing; \<open>outcome\<close> records how it ended: after the success text,
  after a failure text, or by an exception that no \<^verbatim>\<open>except\<close> caught.
\<close>

datatype outcome = Done | Failed | Raised

definition emit :: "event \<Rightarrow> world \<Rightarrow> world" where
  "emit e w = w\<lparr>trace := trace w @ [e]\<rparr>"

text \<open>
  \<^verbatim>\<open>update.message.reply_text(t)\<close> and \<^verbatim>\<open>status.edit_text(t)\<close>: the cause text of the
  exception, if the call raised, and the world after the call.
\<close>

definition reply_text :: "reply_sink \<Rightarrow> string \<Rightarrow> world \<Rightarrow> string option \<times> world" where
  "reply_text sink t w = (sink t, emit (ReplyText t) w)"

definition edit_text :: "reply_sink \<Rightarrow> string \<Rightarrow> world \<Rightarrow> string option \<times> world" where
  "edit_text sink t w = (sink t, emit (EditText t) w)"

text \<open>
  A status edit that is the last statement of its branch and stands in no \<^verbatim>\<open>try\<close>: when
  it raises, the exception leaves the handler.
\<close>

definition last_edit :: "reply_sink \<Rightarrow> outcome \<Rightarrow> string \<Rightarrow> world \<Rightarrow> outcome \<times> world" where
  "last_edit sink out t w =
     (case edit_text sink t w of
        (Some _, w') \<Rightarrow> (Raised, w')
      | (None, w') \<Rightarrow> (out, w'))"

text \<open>\<^verbatim>\<open>try: os.remove(p)  except: pass\<close>\<close>

definition os_remove :: "env \<Rightarrow> string \<Rightarrow> world \<Rightarrow> world" where
  "os_remove e p w =
     (if disk w p \<noteq> None \<and> \<not> locked e p
      then emit (Remove p) (w\<lparr>disk := (disk w)(p := None)\<rparr>)
      else emit (Remove p) w)"

text \<open>\<^verbatim>\<open>os.path.getsize\<close>\<close>

definition getsize :: "filesystem \<Rightarrow> string \<Rightarrow> string + nat" where
  "getsize fs p = (case fs p of None \<Rightarrow> Inl (no_such_file p) | Some d \<Rightarrow> Inr (length d))"

text \<open>
  \<^verbatim>\<open>with open(p, 'rb') as f: await context.bot.send_document(chat_id, document=f,
  filename=os.path.basename(p))\<close>. The result is the cause text of the exception, if one
  was raised, and the world after the call.
\<close>

definition send_file :: "env \<Rightarrow> string \<Rightarrow> world \<Rightarrow> string option \<times> world" where
  "send_file e p w =
     (case disk w p of
        None \<Rightarrow> (Some (no_such_file p), w)
      | Some d \<Rightarrow> (transport e (basename p) d, emit (SendDocument (basename p) d) w))"

text \<open>
  The loop over the parts (lines 169 to 175): upload a part, then remove it; an exception
  leaves the loop at once.
\<close>

fun upload_parts :: "env \<Rightarrow> string list \<Rightarrow> world \<Rightarrow> string option \<times> world" where
  "upload_parts e [] w = (None, w)"
| "upload_parts e (p # ps) w =
     (case send_file e p w of
        (Some cause, w') \<Rightarrow> (Some cause, w')
      | (None, w') \<Rightarrow> upload_parts e ps (os_remove e p w'))"

text \<open>\<^verbatim>\<open>str.lower\<close>, on the ASCII letters.\<close>

definition lower_char :: "char \<Rightarrow> char" where
  "lower_char c =
     (if CHR ''A'' \<le> c \<and> c \<le> CHR ''Z'' then char_of (of_char c + (32 :: nat)) else c)"

definition lower :: "string \<Rightarrow> string" where
  "lower s = map lower_char s"

text \<open>The texts of the status messages.\<close>

definition newline :: string where
  "newline = [CHR 0x0A]"

definition cross_mark :: string where
  "cross_mark = [CHR 0xE2, CHR 0x9D, CHR 0x8C]"

definition check_mark :: string where
  "check_mark = [CHR 0xE2, CHR 0x9C, CHR 0x85]"

definition em_dash :: string where
  "em_dash = [CHR 0xE2, CHR 0x80, CHR 0x94]"

definition queued_text :: "string \<Rightarrow> string" where
  "queued_text url = ''Queued: '' @ url @ newline @ ''Starting download...''"

definition cookie_hint :: string where
  "cookie_hint =
     newline @ newline @ ''Hint: This video may require login/cookies. '' @
     ''Set YTDLP_COOKIES_CONTENT (exported cookies.txt content) in env and restart.''"

definition restricted :: "string \<Rightarrow> bool" where
  "restricted msg =
     (sublist ''age-restricted'' (lower msg) \<or> sublist ''login'' (lower msg)
      \<or> sublist ''private'' (lower msg))"

definition download_failed_text :: "string \<Rightarrow> string" where
  "download_failed_text msg =
     cross_mark @ '' Download failed: '' @ msg @ (if restricted msg then cookie_hint else [])"

definition access_failed_text :: "string \<Rightarrow> string" where
  "access_failed_text cause = ''Downloaded but failed to access file: '' @ cause"

definition uploading_text :: "string \<Rightarrow> nat \<Rightarrow> string" where
  "uploading_text filepath sz =
     ''Uploading '' @ basename filepath @ '' ('' @ str_nat (sz div 1024 div 1024) @ '' MB)...''"

definition upload_failed_text :: "string \<Rightarrow> string" where
  "upload_failed_text cause = ''Upload failed: '' @ cause"

definition done_file_text :: string where
  "done_file_text = check_mark @ '' Done '' @ em_dash @ '' file sent.''"

definition splitting_text :: "nat \<Rightarrow> string" where
  "splitting_text sz =
     ''File is '' @ str_nat (sz div 1024 div 1024) @ '' MB (>50MB). Splitting into parts...''"

definition done_parts_text :: string where
  "done_parts_text = check_mark @ '' Done '' @ em_dash @ '' big file sent in parts.''"

definition split_failed_text :: "string \<Rightarrow> string" where
  "split_failed_text cause = ''Failed to split/upload parts: '' @ cause"

text \<open>
  The small-file branch (lines 148 to 163). The progress edit and the success edit stand
  outside the \<^verbatim>\<open>try\<close>; the failure edit stands in its \<^verbatim>\<open>except\<close> clause, so the
  \<^verbatim>\<open>finally\<close> clause removes the file also when that edit raises.
\<close>

definition direct_send ::
  "reply_sink \<Rightarrow> env \<Rightarrow> string \<Rightarrow> nat \<Rightarrow> world \<Rightarrow> outcome \<times> world" where
  "direct_send sink e filepath sz w =
     (case edit_text sink (uploading_text filepath sz) w of
        (Some _, w1) \<Rightarrow> (Raised, w1)
      | (None, w1) \<Rightarrow>
          (case send_file e filepath w1 of
             (Some cause, w2) \<Rightarrow>
               (case edit_text sink (upload_failed_text cause) w2 of
                  (Some _, w3) \<Rightarrow> (Raised, os_remove e filepath w3)
                | (None, w3) \<Rightarrow> (Failed, os_remove e filepath w3))
           | (None, w2) \<Rightarrow> last_edit sink Done done_file_text (os_remove e filepath w2)))"

text \<open>
  The large-file branch (lines 165 to 183). The progress edit stands outside the
  \<^verbatim>\<open>try\<close>. The success edit (line 180) stands inside it: when it raises, the
  \<^verbatim>\<open>except\<close> clause runs and edits the status to the failure text, with the cause of
  that exception. The failure edit itself stands in the \<^verbatim>\<open>except\<close> clause.
\<close>

definition split_and_send ::
  "reply_sink \<Rightarrow> env \<Rightarrow> string \<Rightarrow> nat \<Rightarrow> world \<Rightarrow> outcome \<times> world" where
  "split_and_send sink e filepath sz w =
     (case edit_text sink (splitting_text sz) w of
        (Some _, w1) \<Rightarrow> (Raised, w1)
      | (None, w1) \<Rightarrow>
          (case split_file (disk w1) filepath CHUNK_SIZE of
             Inl (cause, fs') \<Rightarrow>
               last_edit sink Failed (split_failed_text cause) (w1\<lparr>disk := fs'\<rparr>)
           | Inr (parts, fs') \<Rightarrow>
               (case upload_parts e parts (w1\<lparr>disk := fs'\<rparr>) of
                  (Some cause, w2) \<Rightarrow> last_edit sink Failed (split_failed_text cause) w2
                | (None, w2) \<Rightarrow>
                    (case edit_text sink done_parts_text (os_remove e filepath w2) of
                       (None, w3) \<Rightarrow> (Done, w3)
                     | (Some cause, w3) \<Rightarrow>
                         last_edit sink Failed (split_failed_text cause) w3))))"

text \<open>
  \<^verbatim>\<open>handle_download\<close> (lines 125 to 183), run against a reply target, on the file system
  as the fetcher left it and with an empty event trace. The acknowledgement (line 127)
  stands in no \<^verbatim>\<open>try\<close>; the two failure edits of lines 138 and 145 stand in \<^verbatim>\<open>except\<close>
  clauses and are the last statement of their branch.
\<close>

definition handle_download_on ::
  "reply_sink \<Rightarrow> env \<Rightarrow> string \<Rightarrow> filesystem \<Rightarrow> outcome \<times> world" where
  "handle_download_on sink e url fs0 =
     (case reply_text sink (queued_text url) \<lparr>disk = fs0, trace = []\<rparr> of
        (Some _, w1) \<Rightarrow> (Raised, w1)
      | (None, w1) \<Rightarrow>
          (case fetch e url of
             Inl msg \<Rightarrow> last_edit sink Failed (download_failed_text msg) w1
           | Inr filepath \<Rightarrow>
               (case getsize (disk w1) filepath of
                  Inl cause \<Rightarrow> last_edit sink Failed (access_failed_text cause) w1
                | Inr sz \<Rightarrow>
                    if sz \<le> TG_SIZE_LIMIT then direct_send sink e filepath sz w1
                    else split_and_send sink e filepath sz w1)))"

text \<open>A reply target on which no text-message call raises.\<close>

definition accepting :: reply_sink where
  "accepting = (\<lambda>_. None)"

text \<open>The handler, run against a reply target on which no text-message call raises.\<close>

definition handle_download :: "env \<Rightarrow> string \<Rightarrow> filesystem \<Rightarrow> outcome \<times> world" where
  "handle_download e url fs0 = handle_download_on accepting e url fs0"

text \<open>Observations on a trace.\<close>

fun uploads :: "event list \<Rightarrow> (string \<times> bytes) list" where
  "uploads [] = []"
| "uploads (SendDocument name d # es) = (name, d) # uploads es"
| "uploads (_ # es) = uploads es"

fun messages :: "event list \<Rightarrow> event list" where
  "messages [] = []"
| "messages (ReplyText t # es) = ReplyText t # messages es"
| "messages (EditText t # es) = EditText t # messages es"
| "messages (_ # es) = messages es"

fun file_events :: "event list \<Rightarrow> event list" where
  "file_events [] = []"
| "file_events (SendDocument name d # es) = SendDocument name d # file_events es"
| "file_events (Remove p # es) = Remove p # file_events es"
| "file_events (_ # es) = file_events es"

section \<open>Notions used in the statements and proofs\<close>

definition dec_val :: "string \<Rightarrow> nat" where
  "dec_val s = foldl (\<lambda>a c. 10 * a + (of_char c - 48)) 0 s"

text \<open>The chunk sizes the read accepts, and what it then reads.\<close>

definition readable :: "int \<Rightarrow> bool" where
  "readable C = (- 1 \<le> C \<and> C < 2 ^ 63 - 33)"

definition window :: "int \<Rightarrow> bytes \<Rightarrow> bytes" where
  "window C rest = (if C < 0 then rest else take (nat C) rest)"

text \<open>The successive reads of the loop, on the bytes that are left.\<close>

function chunks :: "int \<Rightarrow> bytes \<Rightarrow> bytes list" where
  "chunks C xs =
     (if window C xs = [] then []
      else window C xs # chunks C (drop (length (window C xs)) xs))"
  by pat_completeness auto
termination
proof (relation "measure (\<lambda>(C, xs). length xs)")
  show "wf (measure (\<lambda>(C, xs). length xs))"
    by simp
next
  fix C :: int and xs :: bytes
  assume ne: "window C xs \<noteq> []"
  then have "xs \<noteq> []"
    by (auto simp: window_def split: if_splits)
  moreover have "length (window C xs) \<noteq> 0"
    using ne by simp
  ultimately have "length xs - length (window C xs) < length xs"
    by (cases xs) auto
  then show "((C, drop (length (window C xs)) xs), (C, xs)) \<in> measure (\<lambda>(C, xs). length xs)"
    by simp
qed

declare chunks.simps [simp del]

definition part_names :: "string \<Rightarrow> nat \<Rightarrow> nat \<Rightarrow> string list" where
  "part_names path idx n = map (part_path path) [idx..<idx + n]"

text \<open>The list of part paths a call returned (empty when it raised).\<close>

definition part_list :: "(string \<times> filesystem) + (string list \<times> filesystem) \<Rightarrow> string list" where
  "part_list r = (case r of Inl _ \<Rightarrow> [] | Inr (ps, _) \<Rightarrow> ps)"


text \<open>A scratch directory holding one file of a thousand zero bytes.\<close>

definition thousand_byte_disk :: filesystem where
  "thousand_byte_disk = [''/tmp/v.mp4'' \<mapsto> replicate 1000 0]"

text \<open>Whether the transport accepts a part, given as the pair of its path and its bytes.\<close>

definition accepted :: "env \<Rightarrow> string \<times> bytes \<Rightarrow> bool" where
  "accepted e qc = (transport e (basename (fst qc)) (snd qc) = None)"

text \<open>What the loop does for a part whose upload goes through.\<close>

definition sent_and_removed :: "string \<times> bytes \<Rightarrow> event list" where
  "sent_and_removed qc = [SendDocument (basename (fst qc)) (snd qc), Remove (fst qc)]"

text \<open>The upload attempt at which the loop stops, if it stops early.\<close>

definition failed_attempt :: "(string \<times> bytes) list \<Rightarrow> event list" where
  "failed_attempt rest = (case rest of [] \<Rightarrow> [] | qc # _ \<Rightarrow> [SendDocument (basename (fst qc)) (snd qc)])"

definition failure_cause :: "env \<Rightarrow> (string \<times> bytes) list \<Rightarrow> string option" where
  "failure_cause e rest = (case rest of [] \<Rightarrow> None | qc # _ \<Rightarrow> transport e (basename (fst qc)) (snd qc))"

text \<open>The terminal steps of the large-file branch, after the loop over the parts.\<close>

definition split_tail :: "env \<Rightarrow> string \<Rightarrow> (string \<times> bytes) list \<Rightarrow> event list" where
  "split_tail e p rest =
     (case rest of
        [] \<Rightarrow> [Remove p, EditText done_parts_text]
      | qc # _ \<Rightarrow>
          [SendDocument (basename (fst qc)) (snd qc),
           EditText (split_failed_text (the (transport e (basename (fst qc)) (snd qc))))])"

text \<open>
  The claim's notion of a text containing a keyword without regard to letter case: some
  stretch of the text spells the keyword, up to the case of its letters.
\<close>

definition contains_ci :: "string \<Rightarrow> string \<Rightarrow> bool" where
  "contains_ci kw text = (\<exists>w. sublist w text \<and> lower w = lower kw)"

text \<open>Two fetchers that always fail, one with a restriction cause and one without.\<close>

definition login_env :: env where
  "login_env =
     \<lparr>fetch = (\<lambda>_. Inl ''yt-dlp DownloadError: Please LOGIN first''),
      transport = (\<lambda>_ _. None), locked = (\<lambda>_. False)\<rparr>"

definition timeout_env :: env where
  "timeout_env =
     \<lparr>fetch = (\<lambda>_. Inl ''yt-dlp DownloadError: timed out''),
      transport = (\<lambda>_ _. None), locked = (\<lambda>_. False)\<rparr>"

text \<open>The kinds of status text, recognised by how the text begins.\<close>

definition is_progress :: "string \<Rightarrow> bool" where
  "is_progress t = (prefix ''Uploading '' t \<or> prefix ''File is '' t)"

definition is_success :: "string \<Rightarrow> bool" where
  "is_success t = (t = done_file_text \<or> t = done_parts_text)"

definition is_failure :: "string \<Rightarrow> bool" where
  "is_failure t =
     (prefix (cross_mark @ '' Download failed: '') t
      \<or> prefix ''Downloaded but failed to access file: '' t
      \<or> prefix ''Upload failed: '' t
      \<or> prefix ''Failed to split/upload parts: '' t)"

definition is_terminal :: "string \<Rightarrow> bool" where
  "is_terminal t = (is_success t \<or> is_failure t)"

text \<open>A part path paired with the bytes of the part file.\<close>

definition with_bytes :: "filesystem \<Rightarrow> string \<Rightarrow> string \<times> bytes" where
  "with_bytes fs q = (q, contents fs q)"

definition as_upload :: "string \<times> bytes \<Rightarrow> string \<times> bytes" where
  "as_upload qc = (basename (fst qc), snd qc)"

text \<open>A download of 50 MiB plus one byte, in an otherwise empty scratch directory.\<close>

definition big_disk :: filesystem where
  "big_disk = [''/tmp/v.mp4'' \<mapsto> replicate 52428801 0]"

text \<open>A fetcher that delivers that file, with a transport that accepts everything.\<close>

definition steady_env :: env where
  "steady_env =
     \<lparr>fetch = (\<lambda>_. Inr ''/tmp/v.mp4''), transport = (\<lambda>_ _. None), locked = (\<lambda>_. False)\<rparr>"

text \<open>The same fetcher, with a transport that times out on the second part.\<close>

definition flaky_env :: env where
  "flaky_env =
     \<lparr>fetch = (\<lambda>_. Inr ''/tmp/v.mp4''),
      transport = (\<lambda>name _. if name = ''v.mp4.part002'' then Some ''Timed out'' else None),
      locked = (\<lambda>_. False)\<rparr>"

text \<open>A download of exactly 50 MiB.\<close>

definition limit_disk :: filesystem where
  "limit_disk = [''/tmp/v.mp4'' \<mapsto> replicate 52428800 0]"

text \<open>Whether the transport accepts the part file at a path.\<close>

definition goes_through :: "env \<Rightarrow> filesystem \<Rightarrow> string \<Rightarrow> bool" where
  "goes_through e fs q = (transport e (basename q) (contents fs q) = None)"

text \<open>
  The parts whose upload the loop is to attempt: every part up to and including the first
  one that the transport rejects.
\<close>

definition attempted :: "env \<Rightarrow> filesystem \<Rightarrow> string list \<Rightarrow> string list" where
  "attempted e fs parts =
     takeWhile (goes_through e fs) parts @ take 1 (dropWhile (goes_through e fs) parts)"

text \<open>Whether every text-message call recorded in a trace returned.\<close>

definition text_call_ok :: "reply_sink \<Rightarrow> event \<Rightarrow> bool" where
  "text_call_ok sink ev =
     (case ev of ReplyText t \<Rightarrow> sink t = None | EditText t \<Rightarrow> sink t = None | _ \<Rightarrow> True)"

definition texts_delivered :: "reply_sink \<Rightarrow> event list \<Rightarrow> bool" where
  "texts_delivered sink tr = list_all (text_call_ok sink) tr"

text \<open>
  Two reply targets: on the first every text-message call times out, on the second only
  the call with the success text of the large-file branch does.
\<close>

definition silent_sink :: reply_sink where
  "silent_sink = (\<lambda>_. Some ''Timed out'')"

definition moody_sink :: reply_sink where
  "moody_sink = (\<lambda>t. if t = done_parts_text then Some ''Timed out'' else None)"

section \<open>Part names\<close>

lemma part_path_neq_path: "part_path path idx \<noteq> path"
  by (simp add: part_path_def)

lemma digit_char_0: "digit_char 0 = CHR ''0''"
  by code_simp

lemma digit_char_1: "digit_char 1 = CHR ''1''"
  by code_simp

lemma of_char_digit_char: "n < 10 \<Longrightarrow> of_char (digit_char n) = 48 + n"
  by (simp add: digit_char_def)

lemma dec_val_snoc: "dec_val (s @ [c]) = 10 * dec_val s + (of_char c - 48)"
  by (simp add: dec_val_def)

lemma dec_val_str_nat: "dec_val (str_nat n) = n"
proof (induction n rule: str_nat.induct)
  case (1 n)
  show ?case
  proof (cases "n < 10")
    case True
    then show ?thesis
      by (subst str_nat.simps) (simp add: dec_val_def of_char_digit_char)
  next
    case False
    then have "dec_val (str_nat (n div 10)) = n div 10"
      using "1" by simp
    then show ?thesis
      using False by (subst str_nat.simps) (simp add: dec_val_snoc of_char_digit_char)
  qed
qed

lemma dec_val_zeros: "dec_val (replicate k (CHR ''0'') @ s) = dec_val s"
proof -
  have "foldl (\<lambda>a c. 10 * a + (of_char c - 48)) (0::nat) (replicate k (CHR ''0'')) = 0"
    by (induction k) simp_all
  then show ?thesis
    by (simp add: dec_val_def)
qed

lemma dec_val_fmt03d: "dec_val (fmt03d n) = n"
  by (simp add: fmt03d_def dec_val_zeros dec_val_str_nat)

lemma fmt03d_inj: "fmt03d a = fmt03d b \<Longrightarrow> a = b"
  by (metis dec_val_fmt03d)

lemma part_path_inj: "part_path p a = part_path p b \<Longrightarrow> a = b"
  by (simp add: part_path_def fmt03d_inj)

lemma str_nat_digits: "c \<in> set (str_nat n) \<Longrightarrow> \<exists>d<10. c = digit_char d"
proof (induction n rule: str_nat.induct)
  case (1 n)
  show ?case
  proof (cases "n < 10")
    case True
    then show ?thesis
      using "1.prems" by (subst (asm) str_nat.simps) auto
  next
    case False
    have "c \<in> set (str_nat (n div 10)) \<or> c = digit_char (n mod 10)"
      using "1.prems" False by (subst (asm) str_nat.simps) auto
    then show ?thesis
    proof
      assume "c \<in> set (str_nat (n div 10))"
      then show ?thesis using "1.IH" False by simp
    next
      assume "c = digit_char (n mod 10)"
      moreover have "n mod 10 < 10" by simp
      ultimately show ?thesis by blast
    qed
  qed
qed

lemma fmt03d_digits: "c \<in> set (fmt03d n) \<Longrightarrow> \<exists>d<10. c = digit_char d"
proof -
  assume "c \<in> set (fmt03d n)"
  then have "c = CHR ''0'' \<or> c \<in> set (str_nat n)"
    by (auto simp: fmt03d_def)
  then show ?thesis
  proof
    assume "c = CHR ''0''"
    then have "c = digit_char 0" by (simp add: digit_char_0)
    then show ?thesis by (intro exI [of _ 0]) simp
  next
    assume "c \<in> set (str_nat n)"
    then show ?thesis by (rule str_nat_digits)
  qed
qed

lemma slash_not_digit: "d < 10 \<Longrightarrow> digit_char d \<noteq> CHR ''/''"
proof
  assume "d < 10" "digit_char d = CHR ''/''"
  then have "of_char (digit_char d) = (of_char (CHR ''/'') :: nat)" by simp
  then show False using \<open>d < 10\<close> by (simp add: of_char_digit_char)
qed

lemma fmt03d_small:
  "n < 1000 \<Longrightarrow> fmt03d n = [digit_char (n div 100), digit_char (n div 10 mod 10), digit_char (n mod 10)]"
proof -
  assume n: "n < 1000"
  consider "n < 10" | "10 \<le> n" "n < 100" | "100 \<le> n"
    by linarith
  then show ?thesis
  proof cases
    case 1
    then have "str_nat n = [digit_char n]"
      by (simp add: str_nat.simps [of n])
    then show ?thesis
      using 1 by (simp add: fmt03d_def digit_char_0 numeral_2_eq_2)
  next
    case 2
    then have a: "n div 10 < 10" by simp
    have "str_nat n = [digit_char (n div 10), digit_char (n mod 10)]"
      using 2 a by (simp add: str_nat.simps [of n] str_nat.simps [of "n div 10"])
    moreover have "n div 100 = 0" using 2 by simp
    moreover have "n div 10 mod 10 = n div 10" using a by simp
    ultimately show ?thesis
      by (simp add: fmt03d_def digit_char_0)
  next
    case 3
    then have a: "\<not> n < 10" "\<not> n div 10 < 10" "n div 10 div 10 < 10"
      using n by simp_all
    have b: "n div 10 div 10 = n div 100"
      by (simp add: div_mult2_eq)
    have "str_nat n = [digit_char (n div 10 div 10), digit_char (n div 10 mod 10), digit_char (n mod 10)]"
      using a
      by (simp add: str_nat.simps [of n] str_nat.simps [of "n div 10"] str_nat.simps [of "n div 10 div 10"])
    then show ?thesis
      by (simp add: fmt03d_def b)
  qed
qed

lemma digit_char_less: "a < 10 \<Longrightarrow> b < 10 \<Longrightarrow> digit_char a < digit_char b \<longleftrightarrow> a < b"
  by (simp add: less_char_def of_char_digit_char)

lemma digit_char_eq: "a < 10 \<Longrightarrow> b < 10 \<Longrightarrow> digit_char a = digit_char b \<longleftrightarrow> a = b"
  by (metis of_char_digit_char add_left_cancel)

lemma decimal_split: "(n::nat) = (n div 100) * 100 + (n div 10 mod 10) * 10 + n mod 10"
proof -
  have "n div 10 = (n div 10 div 10) * 10 + n div 10 mod 10"
    by simp
  moreover have "n div 10 div 10 = n div 100"
    by (simp add: div_mult2_eq)
  moreover have "n = (n div 10) * 10 + n mod 10"
    by simp
  ultimately show ?thesis
    by linarith
qed

lemma decimal_order:
  assumes "(i::nat) < j"
  shows "i div 100 < j div 100
        \<or> i div 100 = j div 100 \<and> (i div 10 mod 10 < j div 10 mod 10
            \<or> i div 10 mod 10 = j div 10 mod 10 \<and> i mod 10 < j mod 10)"
proof -
  define a b c where "a = i div 100" and "b = i div 10 mod 10" and "c = i mod 10"
  define a' b' c' where "a' = j div 100" and "b' = j div 10 mod 10" and "c' = j mod 10"
  have i: "i = a * 100 + b * 10 + c"
    unfolding a_def b_def c_def by (rule decimal_split)
  have j: "j = a' * 100 + b' * 10 + c'"
    unfolding a'_def b'_def c'_def by (rule decimal_split)
  have bounds: "b < 10" "c < 10" "b' < 10" "c' < 10"
    by (simp_all add: b_def c_def b'_def c'_def)
  have "a < a' \<or> a = a' \<and> (b < b' \<or> b = b' \<and> c < c')"
    using assms i j bounds by linarith
  then show ?thesis
    by (simp only: a_def b_def c_def a'_def b'_def c'_def)
qed

lemma fmt03d_less:
  assumes "i < j" "j < 1000"
  shows "fmt03d i < fmt03d j"
proof -
  have i: "i < 1000" using assms by simp
  have h: "i div 100 < 10" "j div 100 < 10" using assms by simp_all
  have t: "i div 10 mod 10 < 10" "j div 10 mod 10 < 10" by simp_all
  have u: "i mod 10 < 10" "j mod 10 < 10" by simp_all
  have lt: "digit_char (i div 100) < digit_char (j div 100) \<longleftrightarrow> i div 100 < j div 100"
    "digit_char (i div 10 mod 10) < digit_char (j div 10 mod 10) \<longleftrightarrow> i div 10 mod 10 < j div 10 mod 10"
    "digit_char (i mod 10) < digit_char (j mod 10) \<longleftrightarrow> i mod 10 < j mod 10"
    using h t u by (simp_all only: digit_char_less)
  have eq: "digit_char (i div 100) = digit_char (j div 100) \<longleftrightarrow> i div 100 = j div 100"
    "digit_char (i div 10 mod 10) = digit_char (j div 10 mod 10) \<longleftrightarrow> i div 10 mod 10 = j div 10 mod 10"
    using h t by (simp_all only: digit_char_eq)
  have "fmt03d i < fmt03d j \<longleftrightarrow>
        (i div 100 < j div 100
        \<or> i div 100 = j div 100 \<and> (i div 10 mod 10 < j div 10 mod 10
            \<or> i div 10 mod 10 = j div 10 mod 10 \<and> i mod 10 < j mod 10))"
    by (simp only: fmt03d_small [OF i] fmt03d_small [OF assms(2)] Cons_less_Cons lt eq
          not_less_Nil simp_thms)
  then show ?thesis
    using decimal_order [OF assms(1)] by blast
qed

lemma append_less_cancel: "(p :: string) @ s < p @ t \<longleftrightarrow> s < t"
  by (induction p) simp_all

lemma part_path_less: "i < j \<Longrightarrow> j < 1000 \<Longrightarrow> part_path p i < part_path p j"
  by (simp add: part_path_def append_less_cancel fmt03d_less)

lemma fmt03d_1000: "fmt03d 1000 = ''1000''"
  by code_simp

lemma fmt03d_101: "fmt03d 101 = ''101''"
  by code_simp

lemma part_path_1000_less_101: "part_path p 1000 < part_path p 101"
  by (simp add: part_path_def append_less_cancel fmt03d_1000 fmt03d_101)

lemma basename_append:
  assumes "CHR ''/'' \<notin> set s"
  shows "basename (p @ s) = basename p @ s"
proof -
  have "takeWhile (\<lambda>c. c \<noteq> CHR ''/'') (rev s @ rev p)
        = rev s @ takeWhile (\<lambda>c. c \<noteq> CHR ''/'') (rev p)"
    by (rule takeWhile_append2) (use assms in auto)
  then show ?thesis
    by (simp add: basename_def)
qed

lemma no_slash_fmt03d: "CHR ''/'' \<notin> set (fmt03d n)"
  using fmt03d_digits slash_not_digit by metis

lemma basename_part_path: "basename (part_path p i) = basename p @ ''.part'' @ fmt03d i"
proof -
  have "CHR ''/'' \<notin> set (''.part'' @ fmt03d i)"
    using no_slash_fmt03d [of i] by simp
  then show ?thesis
    unfolding part_path_def by (rule basename_append)
qed

section \<open>What the segmenter computes\<close>

lemma window_nonempty: "window C xs \<noteq> [] \<Longrightarrow> xs \<noteq> []"
  by (auto simp: window_def split: if_splits)

lemma part_names_0: "part_names path idx 0 = []"
  by (simp add: part_names_def)

lemma part_names_Suc: "part_names path idx (Suc n) = part_path path idx # part_names path (Suc idx) n"
proof -
  have "[idx..<idx + Suc n] = idx # [Suc idx..<Suc idx + n]"
    by (subst upt_rec) simp
  then show ?thesis
    by (simp only: part_names_def list.map)
qed

lemma length_part_names: "length (part_names path idx n) = n"
  by (simp add: part_names_def)

lemma part_path_notin_later: "part_path path idx \<notin> set (part_names path (Suc idx) n)"
proof
  assume "part_path path idx \<in> set (part_names path (Suc idx) n)"
  then have "part_path path idx \<in> part_path path ` {Suc idx..<Suc idx + n}"
    by (simp only: part_names_def set_map set_upt)
  then obtain j where "j \<in> {Suc idx..<Suc idx + n}" and eq: "part_path path idx = part_path path j"
    by (rule imageE)
  then have j: "Suc idx \<le> j"
    by simp
  from eq have "idx = j"
    by (rule part_path_inj)
  with j show False
    by simp
qed

lemma distinct_part_names: "distinct (part_names path idx n)"
proof -
  have "inj_on (part_path path) (set [idx..<idx + n])"
    by (rule inj_onI) (rule part_path_inj)
  then show ?thesis
    by (simp add: part_names_def distinct_map)
qed

lemma path_notin_part_names: "path \<notin> set (part_names path idx n)"
proof -
  have "\<And>j. path \<noteq> part_path path j"
    using part_path_neq_path [of path] by metis
  then show ?thesis
    by (auto simp: part_names_def)
qed

lemma py_read_readable: "readable C \<Longrightarrow> py_read C rest = Inr (window C rest)"
  by (auto simp: readable_def py_read_def window_def)

lemma py_read_refused: "\<not> readable C \<Longrightarrow> \<exists>cause. py_read C rest = Inl cause"
  by (auto simp: readable_def py_read_def)

lemma readable_CHUNK_SIZE: "readable CHUNK_SIZE"
  by (simp add: readable_def CHUNK_SIZE_def)

lemma split_loop_Inl:
  "py_read C (drop pos (contents fs path)) = Inl cause \<Longrightarrow>
   split_loop path C fs pos idx ps = Inl (cause, fs)"
  by (simp add: split_loop.simps [of path C fs pos idx ps])

lemma split_loop_refused:
  assumes "\<not> readable C"
  shows "\<exists>cause. split_loop path C fs pos idx ps = Inl (cause, fs)"
proof -
  obtain cause where "py_read C (drop pos (contents fs path)) = Inl cause"
    using py_read_refused [OF assms] by blast
  then have "split_loop path C fs pos idx ps = Inl (cause, fs)"
    by (rule split_loop_Inl)
  then show ?thesis
    by blast
qed

lemma split_loop_closed:
  "readable C \<Longrightarrow>
   split_loop path C fs pos idx ps =
     Inr (ps @ part_names path idx (length (chunks C (drop pos (contents fs path)))),
          fs ++ map_of (zip (part_names path idx (length (chunks C (drop pos (contents fs path)))))
                            (chunks C (drop pos (contents fs path)))))"
proof (induction path C fs pos idx ps rule: split_loop.induct)
  case (1 path C fs pos idx ps)
  let ?rest = "drop pos (contents fs path)"
  let ?chunk = "window C ?rest"
  have rd: "py_read C ?rest = Inr ?chunk"
    using "1.prems" by (rule py_read_readable)
  show ?case
  proof (cases "?chunk = []")
    case True
    then have "chunks C ?rest = []"
      by (simp add: chunks.simps [of C ?rest])
    then show ?thesis
      using True by (simp add: split_loop.simps [of path C fs pos idx ps] rd part_names_0)
  next
    case False
    let ?fs1 = "fs(part_path path idx \<mapsto> ?chunk)"
    let ?cs = "chunks C (drop (length ?chunk) ?rest)"
    let ?ns = "part_names path (Suc idx) (length ?cs)"
    have same: "contents ?fs1 path = contents fs path"
      using part_path_neq_path [of path idx] by (simp add: contents_def)
    have rest1: "drop (pos + length ?chunk) (contents ?fs1 path) = drop (length ?chunk) ?rest"
      by (simp add: same add.commute)
    have unfold: "chunks C ?rest = ?chunk # ?cs"
      using False by (simp add: chunks.simps [of C ?rest])
    have step: "split_loop path C fs pos idx ps =
                split_loop path C ?fs1 (pos + length ?chunk) (Suc idx) (ps @ [part_path path idx])"
      using False by (simp add: split_loop.simps [of path C fs pos idx ps] rd)
    have ih: "split_loop path C ?fs1 (pos + length ?chunk) (Suc idx) (ps @ [part_path path idx]) =
              Inr ((ps @ [part_path path idx]) @ ?ns, ?fs1 ++ map_of (zip ?ns ?cs))"
      using "1.IH" [OF rd False "1.prems"] by (simp only: rest1)
    have "part_path path idx \<notin> dom (map_of (zip ?ns ?cs))"
      using part_path_notin_later [of path idx "length ?cs"]
      by (auto dest: map_of_SomeD set_zip_leftD)
    then have fs_eq: "?fs1 ++ map_of (zip ?ns ?cs)
                      = fs ++ map_of (zip (part_path path idx # ?ns) (?chunk # ?cs))"
      by (simp add: map_add_upd_left)
    have names: "part_names path idx (length (chunks C ?rest)) = part_path path idx # ?ns"
      by (simp add: unfold part_names_Suc)
    have parts_eq: "(ps @ [part_path path idx]) @ ?ns
                    = ps @ part_names path idx (length (chunks C ?rest))"
      by (simp add: names)
    have fs_eq2: "?fs1 ++ map_of (zip ?ns ?cs)
                  = fs ++ map_of (zip (part_names path idx (length (chunks C ?rest))) (chunks C ?rest))"
      by (simp only: fs_eq names) (simp only: unfold)
    show ?thesis
      by (simp only: step ih parts_eq fs_eq2)
  qed
qed



lemma chunks_bounded: "0 \<le> C \<Longrightarrow> c \<in> set (chunks C xs) \<Longrightarrow> length c \<le> nat C"
proof (induction C xs rule: chunks.induct)
  case (1 C xs)
  show ?case
  proof (cases "window C xs = []")
    case True
    then show ?thesis
      using "1.prems" by (simp add: chunks.simps [of C xs])
  next
    case False
    then have "c = window C xs \<or> c \<in> set (chunks C (drop (length (window C xs)) xs))"
      using "1.prems" by (simp add: chunks.simps [of C xs])
    then show ?thesis
    proof
      assume "c = window C xs"
      then show ?thesis
        using "1.prems"(1) by (simp add: window_def)
    next
      assume "c \<in> set (chunks C (drop (length (window C xs)) xs))"
      then show ?thesis
        using "1.IH" [OF False "1.prems"(1)] by simp
    qed
  qed
qed

lemma chunks_Nil: "chunks C [] = []"
  by (simp add: chunks.simps [of C "[]"] window_def)

lemma chunks_Cons:
  "0 < C \<Longrightarrow> xs \<noteq> [] \<Longrightarrow> chunks C xs = take (nat C) xs # chunks C (drop (nat C) xs)"
proof -
  assume C: "0 < C" and xs: "xs \<noteq> []"
  have r: "window C xs = take (nat C) xs"
    using C by (simp add: window_def)
  have ne: "take (nat C) xs \<noteq> []"
    using C xs by simp
  have "drop (length (take (nat C) xs)) xs = drop (nat C) xs"
    by (simp add: min_def)
  then show ?thesis
    using ne by (simp add: chunks.simps [of C xs] r)
qed

lemma ceil_step:
  assumes "0 < (c::nat)" "0 < n"
  shows "(n + c - 1) div c = Suc ((n - c + c - 1) div c)"
proof (cases "n \<le> c")
  case True
  have "(n + c - 1) div c = 1"
  proof -
    have "c \<le> n + c - 1" "n + c - 1 < 2 * c"
      using assms True by simp_all
    then show ?thesis
      by (metis div_nat_eqI mult.commute mult.right_neutral mult_2_right nat_mult_1_right
          Suc_1 mult_Suc_right One_nat_def)
  qed
  moreover have "(n - c + c - 1) div c = 0"
    using True assms by simp
  ultimately show ?thesis
    by simp
next
  case False
  then have "n + c - 1 = (n - c + c - 1) + c"
    using assms by simp
  then have "(n + c - 1) div c = (n - c + c - 1) div c + 1"
    using assms(1) by (metis div_add_self2 less_numeral_extra(3))
  then show ?thesis
    by simp
qed

lemma chunks_length: "0 < C \<Longrightarrow> length (chunks C xs) = (length xs + nat C - 1) div nat C"
proof (induction "length xs" arbitrary: xs rule: less_induct)
  case less
  show ?case
  proof (cases "xs = []")
    case True
    then show ?thesis
      using less.prems by (simp add: chunks_Nil)
  next
    case False
    have "length (drop (nat C) xs) < length xs"
      using False less.prems by simp
    then have ih: "length (chunks C (drop (nat C) xs))
                   = (length (drop (nat C) xs) + nat C - 1) div nat C"
      using less.hyps less.prems by blast
    have "length (chunks C xs) = Suc ((length xs - nat C + nat C - 1) div nat C)"
      using ih by (simp add: chunks_Cons [OF less.prems False])
    also have "\<dots> = (length xs + nat C - 1) div nat C"
      using ceil_step [of "nat C" "length xs"] False less.prems by simp
    finally show ?thesis .
  qed
qed



lemma map_add_zip_notin: "q \<notin> set ns \<Longrightarrow> (fs ++ map_of (zip ns cs)) q = fs q"
proof -
  assume "q \<notin> set ns"
  then have "map_of (zip ns cs) q = None"
    by (auto simp: map_of_eq_None_iff dest: set_zip_leftD)
  then show ?thesis
    by (simp add: map_add_def)
qed

lemma map_add_zip_nth:
  assumes "distinct ns" "length ns = length cs" "i < length cs"
  shows "(fs ++ map_of (zip ns cs)) (ns ! i) = Some (cs ! i)"
proof -
  have "map_of (zip ns cs) (ns ! i) = Some (cs ! i)"
    using assms by (simp add: map_of_zip_nth)
  then show ?thesis
    by (simp add: map_add_def)
qed

lemma map_add_zip_read:
  assumes "distinct ns" "length ns = length cs"
  shows "map (contents (fs ++ map_of (zip ns cs))) ns = cs"
proof (rule nth_equalityI)
  show "length (map (contents (fs ++ map_of (zip ns cs))) ns) = length cs"
    using assms by simp
next
  fix i
  assume "i < length (map (contents (fs ++ map_of (zip ns cs))) ns)"
  then have i: "i < length cs"
    using assms by simp
  then show "map (contents (fs ++ map_of (zip ns cs))) ns ! i = cs ! i"
    using assms map_add_zip_nth [OF assms i, of fs] by (simp add: contents_def)
qed

lemma split_file_Inl: "fs path = None \<Longrightarrow> split_file fs path C = Inl (no_such_file path, fs)"
  by (simp add: split_file_def)

lemma split_file_refused:
  assumes "fs path = Some d" and "\<not> readable C"
  shows "\<exists>cause. split_file fs path C = Inl (cause, fs)"
  using assms(1) split_loop_refused [OF assms(2), of path fs 0 1 "[]"]
  by (simp add: split_file_def)

lemma split_file_Inr:
  "fs path = Some d \<Longrightarrow> readable C \<Longrightarrow>
   split_file fs path C =
     Inr (part_names path 1 (length (chunks C d)),
          fs ++ map_of (zip (part_names path 1 (length (chunks C d))) (chunks C d)))"
  by (simp add: split_file_def split_loop_closed contents_def)

lemma split_file_cases:
  assumes "split_file fs path C = Inr (parts, fs')"
  obtains d where "fs path = Some d"
    and "parts = part_names path 1 (length (chunks C d))"
    and "fs' = fs ++ map_of (zip parts (chunks C d))"
    and "readable C"
proof (cases "fs path")
  case None
  then show ?thesis
    using assms by (simp add: split_file_Inl)
next
  case (Some d)
  have rd: "readable C"
  proof (rule ccontr)
    assume "\<not> readable C"
    then obtain cause where "split_file fs path C = Inl (cause, fs)"
      using split_file_refused [of fs path d C] Some by blast
    then show False
      using assms by simp
  qed
  let ?P = "part_names path 1 (length (chunks C d))"
  have e: "split_file fs path C = Inr (?P, fs ++ map_of (zip ?P (chunks C d)))"
    using Some rd by (rule split_file_Inr)
  have "parts = ?P \<and> fs' = fs ++ map_of (zip ?P (chunks C d))"
    using assms [unfolded e] by blast
  then show ?thesis
    using Some rd that [of d] by blast
qed

lemma part_names_nth: "i < n \<Longrightarrow> part_names path idx n ! i = part_path path (idx + i)"
  by (simp add: part_names_def)

lemma part_names_upt: "part_names path 1 n = map (part_path path) [1..<Suc n]"
  by (simp add: part_names_def)

lemma part_names_sorted:
  assumes "idx + n \<le> 1000"
  shows "sorted_wrt (<) (part_names path idx n)"
proof -
  have "part_names path idx n ! i < part_names path idx n ! j" if "i < j" "j < n" for i j
  proof -
    have "idx + i < idx + j" "idx + j < 1000"
      using that assms by simp_all
    then have "part_path path (idx + i) < part_path path (idx + j)"
      by (rule part_path_less)
    then show ?thesis
      using that by (simp add: part_names_nth)
  qed
  then show ?thesis
    by (simp add: sorted_wrt_iff_nth_less length_part_names)
qed

section \<open>Claims about the segmenter\<close>

lemma split_file_facts:
  fixes fs :: filesystem and path :: string and d :: bytes and C :: int
  assumes "fs path = Some d" and "readable C"
  defines "parts \<equiv> part_names path 1 (length (chunks C d))"
  defines "fs' \<equiv> fs ++ map_of (zip parts (chunks C d))"
  shows "split_file fs path C = Inr (parts, fs')"
    and "length parts = length (chunks C d)"
    and "distinct parts"
    and "path \<notin> set parts"
    and "fs' path = Some d"
    and "\<And>q. q \<notin> set parts \<Longrightarrow> fs' q = fs q"
    and "\<And>i. i < length parts \<Longrightarrow> fs' (parts ! i) = Some (chunks C d ! i)"
    and "map (contents fs') parts = chunks C d"
proof -
  show "split_file fs path C = Inr (parts, fs')"
    unfolding parts_def fs'_def using assms(1,2) by (rule split_file_Inr)
  show len: "length parts = length (chunks C d)"
    by (simp add: parts_def length_part_names)
  show dist: "distinct parts"
    by (simp add: parts_def distinct_part_names)
  show notin: "path \<notin> set parts"
    by (simp add: parts_def path_notin_part_names)
  show "fs' path = Some d"
    using notin assms(1) by (simp add: fs'_def map_add_zip_notin)
  show "\<And>q. q \<notin> set parts \<Longrightarrow> fs' q = fs q"
    by (simp add: fs'_def map_add_zip_notin)
  show "\<And>i. i < length parts \<Longrightarrow> fs' (parts ! i) = Some (chunks C d ! i)"
    unfolding fs'_def using dist len by (simp add: map_add_zip_nth)
  show "map (contents fs') parts = chunks C d"
    unfolding fs'_def using dist len by (rule map_add_zip_read)
qed




text \<open>
  C8. \<^verbatim>\<open>split_file\<close> never changes or removes its source: whenever it returns, for any
  file and any chunk size, the source path still holds the same bytes, the source is not
  among the parts, and every path that is not one of the returned parts holds what it
  held before (so nothing but part files was created or written).
\<close>

theorem split_file_keeps_source:
  assumes "split_file fs path C = Inr (parts, fs')"
  shows "fs path \<noteq> None \<and> fs' path = fs path \<and> path \<notin> set parts
         \<and> (\<forall>q. q \<notin> set parts \<longrightarrow> fs' q = fs q)"
proof -
  obtain d where d: "fs path = Some d"
    and parts: "parts = part_names path 1 (length (chunks C d))"
    and fs': "fs' = fs ++ map_of (zip parts (chunks C d))"
    using assms by (rule split_file_cases)
  have "path \<notin> set parts"
    by (simp add: parts path_notin_part_names)
  moreover have "\<forall>q. q \<notin> set parts \<longrightarrow> fs' q = fs q"
    by (simp add: fs' map_add_zip_notin)
  ultimately show ?thesis
    using d by simp
qed

theorem split_file_keeps_source_witness:
  "\<exists>parts fs'.
     split_file [''/tmp/v.mp4'' \<mapsto> [1, 2, 3, 4, 5 :: 8 word]] ''/tmp/v.mp4'' 2 = Inr (parts, fs')
     \<and> fs' ''/tmp/v.mp4'' = Some [1, 2, 3, 4, 5]
     \<and> ''/tmp/v.mp4'' \<notin> set parts
     \<and> (\<forall>q. q \<notin> set parts \<longrightarrow> fs' q = [''/tmp/v.mp4'' \<mapsto> [1, 2, 3, 4, 5 :: 8 word]] q)"
proof -
  let ?fs = "[''/tmp/v.mp4'' \<mapsto> [1, 2, 3, 4, 5 :: 8 word]]"
  obtain parts fs' where r: "split_file ?fs ''/tmp/v.mp4'' 2 = Inr (parts, fs')"
    using split_file_Inr [of ?fs "''/tmp/v.mp4''" "[1, 2, 3, 4, 5]" 2] by (simp add: readable_def)
  show ?thesis
    using split_file_keeps_source [OF r] r by auto
qed

text \<open>
  C9. The part size the orchestrator passes to the segmenter (48 MiB) is strictly below
  the inline-attachment limit (50 MiB), and every part the segmenter writes with that
  part size is a file of at most that many bytes.
\<close>

theorem part_size_within_limit:
  "CHUNK_SIZE < int TG_SIZE_LIMIT
   \<and> (split_file fs path CHUNK_SIZE = Inr (parts, fs') \<longrightarrow>
        (\<forall>p\<in>set parts. \<exists>c. fs' p = Some c \<and> int (length c) \<le> CHUNK_SIZE))"
proof (intro conjI impI ballI)
  show "CHUNK_SIZE < int TG_SIZE_LIMIT"
    by (simp add: CHUNK_SIZE_def TG_SIZE_LIMIT_def)
next
  fix p
  assume r: "split_file fs path CHUNK_SIZE = Inr (parts, fs')" and p: "p \<in> set parts"
  obtain d where d: "fs path = Some d"
    and parts: "parts = part_names path 1 (length (chunks CHUNK_SIZE d))"
    and fs': "fs' = fs ++ map_of (zip parts (chunks CHUNK_SIZE d))"
    using r by (rule split_file_cases)
  have len: "length parts = length (chunks CHUNK_SIZE d)"
    by (simp add: parts length_part_names)
  have dist: "distinct parts"
    by (simp add: parts distinct_part_names)
  obtain i where i: "i < length parts" and pi: "parts ! i = p"
    using p by (metis in_set_conv_nth)
  have "fs' p = Some (chunks CHUNK_SIZE d ! i)"
    using map_add_zip_nth [OF dist len, of i fs] i len pi by (simp add: fs')
  moreover have "chunks CHUNK_SIZE d ! i \<in> set (chunks CHUNK_SIZE d)"
    using i len by simp
  then have "length (chunks CHUNK_SIZE d ! i) \<le> nat CHUNK_SIZE"
    by (intro chunks_bounded) (simp_all add: CHUNK_SIZE_def)
  then have "int (length (chunks CHUNK_SIZE d ! i)) \<le> CHUNK_SIZE"
    by (simp add: CHUNK_SIZE_def)
  ultimately show "\<exists>c. fs' p = Some c \<and> int (length c) \<le> CHUNK_SIZE"
    by blast
qed

theorem part_size_within_limit_witness:
  "\<exists>parts fs'.
     split_file [''/tmp/v.mp4'' \<mapsto> [1, 2, 3 :: 8 word]] ''/tmp/v.mp4'' CHUNK_SIZE = Inr (parts, fs')
     \<and> parts \<noteq> []
     \<and> (\<forall>p\<in>set parts. \<exists>c. fs' p = Some c \<and> int (length c) \<le> CHUNK_SIZE)"
proof -
  let ?fs = "[''/tmp/v.mp4'' \<mapsto> [1, 2, 3 :: 8 word]]"
  have "0 < CHUNK_SIZE"
    by (simp add: CHUNK_SIZE_def)
  then have "chunks CHUNK_SIZE [1, 2, 3 :: 8 word] \<noteq> []"
    by (simp add: chunks_Cons)
  then have ne: "part_names ''/tmp/v.mp4'' 1 (length (chunks CHUNK_SIZE [1, 2, 3 :: 8 word])) \<noteq> []"
    by (metis length_part_names length_0_conv)
  obtain parts fs' where r: "split_file ?fs ''/tmp/v.mp4'' CHUNK_SIZE = Inr (parts, fs')"
    and "parts \<noteq> []"
    using split_file_Inr [of ?fs "''/tmp/v.mp4''" "[1, 2, 3]" CHUNK_SIZE] ne readable_CHUNK_SIZE
    by simp
  then show ?thesis
    using part_size_within_limit [of ?fs "''/tmp/v.mp4''" parts fs'] by blast
qed

lemma length_str_nat_pos: "0 < length (str_nat n)"
  by (subst str_nat.simps) simp

lemma length_fmt03d_ge: "3 \<le> length (fmt03d n)"
  by (simp add: fmt03d_def)

lemma length_fmt03d_big:
  assumes "1000 \<le> n"
  shows "3 < length (fmt03d n)"
proof -
  have a: "\<not> n < 10" "\<not> n div 10 < 10" "\<not> n div 10 div 10 < 10"
    using assms by simp_all
  have "str_nat n = str_nat (n div 10 div 10 div 10) @ [digit_char (n div 10 div 10 mod 10),
          digit_char (n div 10 mod 10), digit_char (n mod 10)]"
    using a
    by (simp add: str_nat.simps [of n] str_nat.simps [of "n div 10"]
          str_nat.simps [of "n div 10 div 10"])
  then have "length (str_nat n) = length (str_nat (n div 10 div 10 div 10)) + 3"
    by simp
  then have "3 < length (str_nat n)"
    using length_str_nat_pos [of "n div 10 div 10 div 10"] by linarith
  then show ?thesis
    by (simp add: fmt03d_def)
qed

lemma part_list_split_file:
  "fs path = Some d \<Longrightarrow> readable C \<Longrightarrow>
   part_list (split_file fs path C) = part_names path 1 (length (chunks C d))"
  by (simp add: part_list_def split_file_Inr)

lemma thousand_parts:
  "part_list (split_file thousand_byte_disk ''/tmp/v.mp4'' 1) = part_names ''/tmp/v.mp4'' 1 1000"
proof -
  have "length (chunks 1 (replicate 1000 (0 :: 8 word))) = 1000"
    by (simp add: chunks_length)
  then show ?thesis
    by (simp add: part_list_split_file [of _ _ "replicate 1000 0"] thousand_byte_disk_def
          readable_def)
qed

text \<open>
  C6, as stated, fails. A file of 1000 bytes split with chunk size 1 gives 1000 parts; the
  last one carries the four-digit suffix \<^verbatim>\<open>1000\<close>, and its name sorts before the name of
  part 101, which was written long before it. Sorting the names does not give back the
  order of writing.
\<close>

theorem part_order_counterexample:
  "length (part_list (split_file thousand_byte_disk ''/tmp/v.mp4'' 1)) = 1000
   \<and> part_list (split_file thousand_byte_disk ''/tmp/v.mp4'' 1) ! 100 = ''/tmp/v.mp4.part101''
   \<and> part_list (split_file thousand_byte_disk ''/tmp/v.mp4'' 1) ! 999 = ''/tmp/v.mp4.part1000''
   \<and> part_list (split_file thousand_byte_disk ''/tmp/v.mp4'' 1) ! 999
       < part_list (split_file thousand_byte_disk ''/tmp/v.mp4'' 1) ! 100
   \<and> sort (part_list (split_file thousand_byte_disk ''/tmp/v.mp4'' 1))
       \<noteq> part_list (split_file thousand_byte_disk ''/tmp/v.mp4'' 1)"
proof -
  let ?ps = "part_list (split_file thousand_byte_disk ''/tmp/v.mp4'' 1)"
  have len: "length ?ps = 1000"
    by (simp add: thousand_parts length_part_names)
  have a: "?ps ! 100 = ''/tmp/v.mp4.part101''"
    by (simp add: thousand_parts part_names_nth part_path_def fmt03d_101)
  have b: "?ps ! 999 = ''/tmp/v.mp4.part1000''"
    by (simp add: thousand_parts part_names_nth part_path_def fmt03d_1000)
  have lt: "?ps ! 999 < ?ps ! 100"
    unfolding a b by simp
  have "sort ?ps \<noteq> ?ps"
  proof
    assume "sort ?ps = ?ps"
    then have "sorted ?ps"
      by (metis sorted_sort)
    then have "?ps ! 100 \<le> ?ps ! 999"
      using len by (simp add: sorted_iff_nth_mono)
    then show False
      using lt by simp
  qed
  then show ?thesis
    using len a b lt by blast
qed

text \<open>
  C6, amended. The \<open>i\<close>-th part (counted from 1) is named by the source path, the text
  \<^verbatim>\<open>.part\<close> and the decimal digits of \<open>i\<close> padded with zeros to at least three digits:
  exactly three digits up to 999, more from 1000 on. Whenever fewer than 1000 parts are
  produced, the names are strictly increasing in lexicographic order, so that listing
  them in that order gives the order in which the parts were written.
\<close>

theorem part_names_ordered:
  assumes "split_file fs path C = Inr (parts, fs')"
  shows "parts = map (\<lambda>i. path @ ''.part'' @ fmt03d i) [1..<Suc (length parts)]
         \<and> (\<forall>i. dec_val (fmt03d i) = i \<and> 3 \<le> length (fmt03d i))
         \<and> (\<forall>i<1000. fmt03d i
               = [digit_char (i div 100), digit_char (i div 10 mod 10), digit_char (i mod 10)])
         \<and> (\<forall>i\<ge>1000. 3 < length (fmt03d i))
         \<and> (length parts < 1000 \<longrightarrow> sorted_wrt (<) parts \<and> sort parts = parts)"
proof -
  obtain d where d: "fs path = Some d"
    and parts: "parts = part_names path 1 (length (chunks C d))"
    using assms by (rule split_file_cases)
  have len: "length parts = length (chunks C d)"
    by (simp add: parts length_part_names)
  have "parts = map (part_path path) [1..<Suc (length parts)]"
    unfolding len by (simp only: parts part_names_upt)
  then have names: "parts = map (\<lambda>i. path @ ''.part'' @ fmt03d i) [1..<Suc (length parts)]"
    by (simp add: part_path_def [abs_def])
  have ordered: "sorted_wrt (<) parts \<and> sort parts = parts" if "length parts < 1000"
  proof -
    have "1 + length (chunks C d) \<le> 1000"
      using that len by simp
    then have s: "sorted_wrt (<) parts"
      unfolding parts by (rule part_names_sorted)
    then have "sorted parts"
      by (rule strict_sorted_imp_sorted)
    then have "sort parts = parts"
      by (rule sorted_sort_id)
    with s show ?thesis
      by simp
  qed
  show ?thesis
    using names ordered
    by (simp add: dec_val_fmt03d length_fmt03d_ge fmt03d_small length_fmt03d_big)
qed

theorem part_names_ordered_witness:
  "\<exists>parts fs'.
     split_file [''/tmp/v.mp4'' \<mapsto> [1, 2, 3, 4, 5 :: 8 word]] ''/tmp/v.mp4'' 2 = Inr (parts, fs')
     \<and> length parts = 3
     \<and> parts = map (\<lambda>i. ''/tmp/v.mp4'' @ ''.part'' @ fmt03d i) [1..<Suc (length parts)]
     \<and> sorted_wrt (<) parts \<and> sort parts = parts"
proof -
  let ?fs = "[''/tmp/v.mp4'' \<mapsto> [1, 2, 3, 4, 5 :: 8 word]]"
  have n: "length (chunks 2 [1, 2, 3, 4, 5 :: 8 word]) = 3"
    by (simp add: chunks_length)
  obtain parts fs' where r: "split_file ?fs ''/tmp/v.mp4'' 2 = Inr (parts, fs')"
    and len: "length parts = 3"
    using split_file_Inr [of ?fs "''/tmp/v.mp4''" "[1, 2, 3, 4, 5]" 2] n
    by (simp add: length_part_names readable_def)
  have names: "parts = map (\<lambda>i. ''/tmp/v.mp4'' @ ''.part'' @ fmt03d i) [1..<Suc (length parts)]"
    and ordered: "length parts < 1000 \<longrightarrow> sorted_wrt (<) parts \<and> sort parts = parts"
    using part_names_ordered [OF r] by blast+
  have "sorted_wrt (<) parts \<and> sort parts = parts"
    using ordered len by simp
  then show ?thesis
    using r len names by blast
qed

section \<open>What the orchestrator does\<close>

lemma trace_emit: "trace (emit x w) = trace w @ [x]"
  by (simp add: emit_def)

lemma disk_emit: "disk (emit x w) = disk w"
  by (simp add: emit_def)

lemma trace_os_remove: "trace (os_remove e p w) = trace w @ [Remove p]"
  by (simp add: os_remove_def emit_def)

lemma disk_os_remove:
  "disk (os_remove e p w) = (if locked e p then disk w else (disk w)(p := None))"
  by (auto simp: os_remove_def emit_def)

lemma send_file_Some:
  "disk w p = Some d \<Longrightarrow>
   send_file e p w = (transport e (basename p) d, emit (SendDocument (basename p) d) w)"
  by (simp add: send_file_def)

lemma send_file_None: "disk w p = None \<Longrightarrow> send_file e p w = (Some (no_such_file p), w)"
  by (simp add: send_file_def)

lemma uploads_append: "uploads (xs @ ys) = uploads xs @ uploads ys"
  by (induction xs rule: uploads.induct) simp_all

lemma messages_append: "messages (xs @ ys) = messages xs @ messages ys"
  by (induction xs rule: messages.induct) simp_all


lemma upload_parts_closed_aux:
  "distinct ps \<Longrightarrow> map (disk w) ps = map Some cs \<Longrightarrow>
   fst (upload_parts e ps w) = failure_cause e (dropWhile (accepted e) (zip ps cs))
   \<and> trace (snd (upload_parts e ps w)) =
         trace w @ concat (map sent_and_removed (takeWhile (accepted e) (zip ps cs)))
           @ failed_attempt (dropWhile (accepted e) (zip ps cs))
   \<and> disk (snd (upload_parts e ps w)) =
         (\<lambda>q. if q \<in> fst ` set (takeWhile (accepted e) (zip ps cs)) \<and> \<not> locked e q
              then None else disk w q)"
proof (induction ps arbitrary: w cs)
  case Nil
  show ?case
    by (simp add: failure_cause_def failed_attempt_def)
next
  case (Cons p ps)
  obtain c cs' where cs: "cs = c # cs'"
    using Cons.prems(2) by (cases cs) auto
  have p: "disk w p = Some c" and rest: "map (disk w) ps = map Some cs'"
    using Cons.prems(2) by (simp_all add: cs)
  have dist: "distinct ps" and notin: "p \<notin> set ps"
    using Cons.prems(1) by simp_all
  let ?w1 = "emit (SendDocument (basename p) c) w"
  let ?w2 = "os_remove e p ?w1"
  have sf: "send_file e p w = (transport e (basename p) c, ?w1)"
    using p by (rule send_file_Some)
  show ?case
  proof (cases "transport e (basename p) c")
    case (Some cause)
    then have na: "\<not> accepted e (p, c)"
      by (simp add: accepted_def)
    have "upload_parts e (p # ps) w = (Some cause, ?w1)"
      by (simp add: sf Some)
    then show ?thesis
      using na Some by (simp add: cs failure_cause_def failed_attempt_def trace_emit disk_emit)
  next
    case None
    then have a: "accepted e (p, c)"
      by (simp add: accepted_def)
    have step: "upload_parts e (p # ps) w = upload_parts e ps ?w2"
      by (simp add: sf None)
    have "map (disk ?w2) ps = map (disk w) ps"
      using notin by (auto simp: disk_os_remove disk_emit)
    then have rest2: "map (disk ?w2) ps = map Some cs'"
      using rest by simp
    note ih = Cons.IH [OF dist rest2]
    have d2: "disk ?w2 = (if locked e p then disk w else (disk w)(p := None))"
      by (simp add: disk_os_remove disk_emit)
    have t2: "trace ?w2 = trace w @ sent_and_removed (p, c)"
      by (simp add: trace_os_remove trace_emit sent_and_removed_def)
    have "disk (snd (upload_parts e ps ?w2)) =
           (\<lambda>q. if q \<in> fst ` set (takeWhile (accepted e) (zip (p # ps) cs)) \<and> \<not> locked e q
                then None else disk w q)"
      using a p ih by (auto simp: d2 cs)
    then show ?thesis
      unfolding step using a ih by (simp add: t2 cs)
  qed
qed

lemma upload_parts_closed:
  assumes "distinct ps" and "map (disk w) ps = map Some cs"
  shows "fst (upload_parts e ps w) = failure_cause e (dropWhile (accepted e) (zip ps cs))"
    and "trace (snd (upload_parts e ps w)) =
           trace w @ concat (map sent_and_removed (takeWhile (accepted e) (zip ps cs)))
             @ failed_attempt (dropWhile (accepted e) (zip ps cs))"
    and "disk (snd (upload_parts e ps w)) =
           (\<lambda>q. if q \<in> fst ` set (takeWhile (accepted e) (zip ps cs)) \<and> \<not> locked e q
                then None else disk w q)"
  using upload_parts_closed_aux [OF assms, of e] by blast+

lemmas reliable_defs =
  handle_download_def handle_download_on_def reply_text_def edit_text_def last_edit_def
  accepting_def

lemma handle_download_fetch_failed:
  assumes "fetch e url = Inl msg"
  shows "handle_download e url fs0 =
           (Failed, \<lparr>disk = fs0,
                     trace = [ReplyText (queued_text url), EditText (download_failed_text msg)]\<rparr>)"
  using assms by (simp add: reliable_defs emit_def)

lemma handle_download_access_failed:
  assumes "fetch e url = Inr p" and "fs0 p = None"
  shows "handle_download e url fs0 =
           (Failed, \<lparr>disk = fs0,
                     trace = [ReplyText (queued_text url),
                              EditText (access_failed_text (no_such_file p))]\<rparr>)"
  using assms by (simp add: reliable_defs getsize_def emit_def)

lemma handle_download_direct:
  assumes "fetch e url = Inr p" and "fs0 p = Some d" and "length d \<le> TG_SIZE_LIMIT"
  shows "handle_download e url fs0 =
           (case transport e (basename p) d of
              None \<Rightarrow>
                (Done, \<lparr>disk = (if locked e p then fs0 else fs0(p := None)),
                        trace = [ReplyText (queued_text url),
                                 EditText (uploading_text p (length d)),
                                 SendDocument (basename p) d,
                                 Remove p,
                                 EditText done_file_text]\<rparr>)
            | Some cause \<Rightarrow>
                (Failed, \<lparr>disk = (if locked e p then fs0 else fs0(p := None)),
                          trace = [ReplyText (queued_text url),
                                   EditText (uploading_text p (length d)),
                                   SendDocument (basename p) d,
                                   EditText (upload_failed_text cause),
                                   Remove p]\<rparr>))"
  using assms
  by (simp add: reliable_defs getsize_def direct_send_def send_file_def os_remove_def
        emit_def split: option.split)

lemma split_file_parts_on_disk:
  fixes fs :: filesystem and C :: int
  assumes "fs path = Some d"
  shows "map (fs ++ map_of (zip (part_names path 1 (length (chunks C d))) (chunks C d)))
           (part_names path 1 (length (chunks C d)))
         = map Some (chunks C d)"
proof (rule nth_equalityI)
  show "length (map (fs ++ map_of (zip (part_names path 1 (length (chunks C d))) (chunks C d)))
           (part_names path 1 (length (chunks C d)))) = length (map Some (chunks C d))"
    by (simp add: length_part_names)
next
  fix i
  assume "i < length (map (fs ++ map_of (zip (part_names path 1 (length (chunks C d))) (chunks C d)))
           (part_names path 1 (length (chunks C d))))"
  then have i: "i < length (chunks C d)"
    by (simp add: length_part_names)
  have "(fs ++ map_of (zip (part_names path 1 (length (chunks C d))) (chunks C d)))
          (part_names path 1 (length (chunks C d)) ! i) = Some (chunks C d ! i)"
    using i by (intro map_add_zip_nth) (simp_all add: distinct_part_names length_part_names)
  then show "map (fs ++ map_of (zip (part_names path 1 (length (chunks C d))) (chunks C d)))
           (part_names path 1 (length (chunks C d))) ! i = map Some (chunks C d) ! i"
    using i by (simp add: length_part_names)
qed

lemma handle_download_on_split:
  assumes "sink (queued_text url) = None" and "sink (splitting_text (length d)) = None"
    and "fetch e url = Inr p" and "fs0 p = Some d" and "TG_SIZE_LIMIT < length d"
  shows "handle_download_on sink e url fs0 =
           (case upload_parts e (part_names p 1 (length (chunks CHUNK_SIZE d)))
                   \<lparr>disk = fs0 ++ map_of (zip (part_names p 1 (length (chunks CHUNK_SIZE d)))
                                              (chunks CHUNK_SIZE d)),
                    trace = [ReplyText (queued_text url), EditText (splitting_text (length d))]\<rparr> of
              (Some cause, w2) \<Rightarrow> last_edit sink Failed (split_failed_text cause) w2
            | (None, w2) \<Rightarrow>
                (case edit_text sink done_parts_text (os_remove e p w2) of
                   (None, w3) \<Rightarrow> (Done, w3)
                 | (Some cause, w3) \<Rightarrow> last_edit sink Failed (split_failed_text cause) w3))"
proof -
  have sf: "split_file fs0 p CHUNK_SIZE =
              Inr (part_names p 1 (length (chunks CHUNK_SIZE d)),
                   fs0 ++ map_of (zip (part_names p 1 (length (chunks CHUNK_SIZE d)))
                                      (chunks CHUNK_SIZE d)))"
    using assms(4) readable_CHUNK_SIZE by (rule split_file_Inr)
  show ?thesis
    using assms
    by (simp add: handle_download_on_def reply_text_def edit_text_def getsize_def
          split_and_send_def sf emit_def)
qed

lemma handle_download_split:
  assumes "fetch e url = Inr p" and "fs0 p = Some d" and "TG_SIZE_LIMIT < length d"
  shows "handle_download e url fs0 =
           (case upload_parts e (part_names p 1 (length (chunks CHUNK_SIZE d)))
                   \<lparr>disk = fs0 ++ map_of (zip (part_names p 1 (length (chunks CHUNK_SIZE d)))
                                              (chunks CHUNK_SIZE d)),
                    trace = [ReplyText (queued_text url), EditText (splitting_text (length d))]\<rparr> of
              (Some cause, w') \<Rightarrow> (Failed, emit (EditText (split_failed_text cause)) w')
            | (None, w') \<Rightarrow> (Done, emit (EditText done_parts_text) (os_remove e p w')))"
proof -
  have h: "handle_download e url fs0 =
           (case upload_parts e (part_names p 1 (length (chunks CHUNK_SIZE d)))
                   \<lparr>disk = fs0 ++ map_of (zip (part_names p 1 (length (chunks CHUNK_SIZE d)))
                                              (chunks CHUNK_SIZE d)),
                    trace = [ReplyText (queued_text url), EditText (splitting_text (length d))]\<rparr> of
              (Some cause, w2) \<Rightarrow> last_edit accepting Failed (split_failed_text cause) w2
            | (None, w2) \<Rightarrow>
                (case edit_text accepting done_parts_text (os_remove e p w2) of
                   (None, w3) \<Rightarrow> (Done, w3)
                 | (Some cause, w3) \<Rightarrow> last_edit accepting Failed (split_failed_text cause) w3))"
    unfolding handle_download_def
    by (rule handle_download_on_split [where ?fs0.0 = fs0, OF _ _ assms])
       (simp_all add: accepting_def)
  show ?thesis
    unfolding h
    by (simp add: last_edit_def edit_text_def accepting_def split: prod.split option.split)
qed

lemma dropWhile_head_rejected:
  assumes "dropWhile (accepted e) zs = qc # rest"
  shows "transport e (basename (fst qc)) (snd qc) \<noteq> None"
proof -
  have "dropWhile (accepted e) zs \<noteq> []"
    using assms by simp
  then have "\<not> accepted e (hd (dropWhile (accepted e) zs))"
    by (rule hd_dropWhile)
  then show ?thesis
    using assms by (simp add: accepted_def)
qed

lemma split_run:
  fixes e :: env and url p :: string and fs0 :: filesystem and d :: bytes
  assumes "fetch e url = Inr p" and "fs0 p = Some d" and "TG_SIZE_LIMIT < length d"
  defines "zs \<equiv> zip (part_names p 1 (length (chunks CHUNK_SIZE d))) (chunks CHUNK_SIZE d)"
  shows "fst (handle_download e url fs0) = (if dropWhile (accepted e) zs = [] then Done else Failed)"
    and "trace (snd (handle_download e url fs0)) =
           [ReplyText (queued_text url), EditText (splitting_text (length d))]
           @ concat (map sent_and_removed (takeWhile (accepted e) zs))
           @ split_tail e p (dropWhile (accepted e) zs)"
    and "disk (snd (handle_download e url fs0)) =
           (\<lambda>q. if (q \<in> fst ` set (takeWhile (accepted e) zs)
                     \<or> q = p \<and> dropWhile (accepted e) zs = []) \<and> \<not> locked e q
                then None else (fs0 ++ map_of zs) q)"
proof -
  let ?ps = "part_names p 1 (length (chunks CHUNK_SIZE d))"
  let ?w = "\<lparr>disk = fs0 ++ map_of zs,
             trace = [ReplyText (queued_text url), EditText (splitting_text (length d))]\<rparr>"
  let ?r = "upload_parts e ?ps ?w"
  have hd: "handle_download e url fs0 =
           (case ?r of
              (Some cause, w') \<Rightarrow> (Failed, emit (EditText (split_failed_text cause)) w')
            | (None, w') \<Rightarrow> (Done, emit (EditText done_parts_text) (os_remove e p w')))"
    unfolding zs_def using assms(1-3) by (rule handle_download_split)
  have dist: "distinct ?ps"
    by (rule distinct_part_names)
  have on_disk: "map (disk ?w) ?ps = map Some (chunks CHUNK_SIZE d)"
    unfolding zs_def using split_file_parts_on_disk [of fs0 p d CHUNK_SIZE] assms(2) by simp
  note up = upload_parts_closed [OF dist on_disk, of e, folded zs_def]
  have all:
    "fst (handle_download e url fs0) = (if dropWhile (accepted e) zs = [] then Done else Failed)
     \<and> trace (snd (handle_download e url fs0)) =
           [ReplyText (queued_text url), EditText (splitting_text (length d))]
           @ concat (map sent_and_removed (takeWhile (accepted e) zs))
           @ split_tail e p (dropWhile (accepted e) zs)
     \<and> disk (snd (handle_download e url fs0)) =
           (\<lambda>q. if (q \<in> fst ` set (takeWhile (accepted e) zs)
                     \<or> q = p \<and> dropWhile (accepted e) zs = []) \<and> \<not> locked e q
                then None else (fs0 ++ map_of zs) q)"
  proof (cases "dropWhile (accepted e) zs")
    case Nil
    have "fst ?r = None"
      using up(1) by (simp add: Nil failure_cause_def)
    then have r: "?r = (None, snd ?r)"
      by (metis prod.collapse)
    have h: "handle_download e url fs0
             = (Done, emit (EditText done_parts_text) (os_remove e p (snd ?r)))"
      by (subst hd, subst r) simp
    show ?thesis
      unfolding h using up(2,3)
      by (auto simp: Nil trace_emit disk_emit trace_os_remove disk_os_remove split_tail_def
            failed_attempt_def)
  next
    case (Cons qc rest)
    then obtain cause where cause: "transport e (basename (fst qc)) (snd qc) = Some cause"
      using dropWhile_head_rejected [OF Cons] by auto
    have "fst ?r = Some cause"
      using up(1) by (simp add: Cons cause failure_cause_def)
    then have r: "?r = (Some cause, snd ?r)"
      by (metis prod.collapse)
    have h: "handle_download e url fs0
             = (Failed, emit (EditText (split_failed_text cause)) (snd ?r))"
      by (subst hd, subst r) simp
    show ?thesis
      unfolding h using up(2,3)
      by (auto simp: Cons cause trace_emit disk_emit split_tail_def failed_attempt_def)
  qed
  show "fst (handle_download e url fs0) = (if dropWhile (accepted e) zs = [] then Done else Failed)"
    using all by blast
  show "trace (snd (handle_download e url fs0)) =
           [ReplyText (queued_text url), EditText (splitting_text (length d))]
           @ concat (map sent_and_removed (takeWhile (accepted e) zs))
           @ split_tail e p (dropWhile (accepted e) zs)"
    using all by blast
  show "disk (snd (handle_download e url fs0)) =
           (\<lambda>q. if (q \<in> fst ` set (takeWhile (accepted e) zs)
                     \<or> q = p \<and> dropWhile (accepted e) zs = []) \<and> \<not> locked e q
                then None else (fs0 ++ map_of zs) q)"
    using all by blast
qed

lemma texts_delivered_append:
  "texts_delivered sink (xs @ ys) \<longleftrightarrow> texts_delivered sink xs \<and> texts_delivered sink ys"
  by (simp add: texts_delivered_def)

lemma texts_delivered_Cons:
  "texts_delivered sink (ReplyText t # tr) \<longleftrightarrow> sink t = None \<and> texts_delivered sink tr"
  "texts_delivered sink (EditText t # tr) \<longleftrightarrow> sink t = None \<and> texts_delivered sink tr"
  "texts_delivered sink (SendDocument n c # tr) \<longleftrightarrow> texts_delivered sink tr"
  "texts_delivered sink (Remove q # tr) \<longleftrightarrow> texts_delivered sink tr"
  "texts_delivered sink []"
  by (simp_all add: texts_delivered_def text_call_ok_def)

lemma texts_delivered_accepting: "texts_delivered accepting tr"
  by (induction tr) (simp_all add: texts_delivered_def text_call_ok_def accepting_def split: event.split)

lemma last_edit_delivered:
  assumes "texts_delivered sink (trace (snd (last_edit sink out t w)))"
  shows "last_edit sink out t w = last_edit accepting out t w"
  using assms
  by (cases "sink t")
     (simp_all add: last_edit_def edit_text_def trace_emit texts_delivered_append
        texts_delivered_Cons accepting_def)

lemma direct_send_delivered:
  assumes "texts_delivered sink (trace (snd (direct_send sink e p sz w)))"
  shows "direct_send sink e p sz w = direct_send accepting e p sz w"
  using assms
  by (auto simp: direct_send_def last_edit_def edit_text_def trace_emit trace_os_remove
        texts_delivered_append texts_delivered_Cons accepting_def
        split: option.splits prod.splits)

lemma split_and_send_delivered:
  assumes "texts_delivered sink (trace (snd (split_and_send sink e p sz w)))"
  shows "split_and_send sink e p sz w = split_and_send accepting e p sz w"
  using assms
  by (auto simp: split_and_send_def last_edit_def edit_text_def trace_emit trace_os_remove
        texts_delivered_append texts_delivered_Cons accepting_def
        split: option.splits prod.splits sum.splits)

lemma handle_download_on_delivered:
  assumes "texts_delivered sink (trace (snd (handle_download_on sink e url fs0)))"
  shows "handle_download_on sink e url fs0 = handle_download e url fs0"
proof (cases "sink (queued_text url)")
  case (Some c)
  then show ?thesis
    using assms
    by (simp add: handle_download_on_def reply_text_def trace_emit texts_delivered_Cons)
next
  case None
  show ?thesis
  proof (cases "fetch e url")
    case (Inl msg)
    then show ?thesis
      using assms None last_edit_delivered
      by (simp add: handle_download_def handle_download_on_def reply_text_def accepting_def)
  next
    case (Inr p)
    show ?thesis
    proof (cases "getsize fs0 p")
      case (Inl c)
      then show ?thesis
        using assms None Inr last_edit_delivered
        by (simp add: handle_download_def handle_download_on_def reply_text_def accepting_def
              disk_emit)
    next
      case sz: (Inr sz)
      show ?thesis
      proof (cases "sz \<le> TG_SIZE_LIMIT")
        case True
        then show ?thesis
          using assms None Inr sz direct_send_delivered
          by (simp add: handle_download_def handle_download_on_def reply_text_def accepting_def
                disk_emit)
      next
        case False
        then show ?thesis
          using assms None Inr sz split_and_send_delivered
          by (simp add: handle_download_def handle_download_on_def reply_text_def accepting_def
                disk_emit)
      qed
    qed
  qed
qed

lemma big_disk_file: "big_disk ''/tmp/v.mp4'' = Some (replicate 52428801 0)"
  by (simp add: big_disk_def)

lemma big_file_over_limit: "TG_SIZE_LIMIT < length (replicate 52428801 (0 :: 8 word))"
  by (simp add: TG_SIZE_LIMIT_def)

lemma steady_fetch: "fetch steady_env url = Inr ''/tmp/v.mp4''"
  by (simp add: steady_env_def)

lemma flaky_fetch: "fetch flaky_env url = Inr ''/tmp/v.mp4''"
  by (simp add: flaky_env_def)

lemma limit_disk_file: "limit_disk ''/tmp/v.mp4'' = Some (replicate 52428800 0)"
  by (simp add: limit_disk_def)

lemma limit_file_at_limit: "length (replicate 52428800 (0 :: 8 word)) \<le> TG_SIZE_LIMIT"
  by (simp add: TG_SIZE_LIMIT_def)

lemma big_chunks:
  "chunks CHUNK_SIZE (replicate 52428801 (0 :: 8 word)) = [replicate 50331648 0, replicate 2097153 0]"
proof -
  have C: "0 < CHUNK_SIZE" "nat CHUNK_SIZE = 50331648"
    by (simp_all add: CHUNK_SIZE_def)
  have "chunks CHUNK_SIZE (replicate 52428801 (0 :: 8 word))
        = replicate 50331648 0 # chunks CHUNK_SIZE (replicate 2097153 0)"
    by (subst chunks_Cons) (simp_all add: C)
  also have "chunks CHUNK_SIZE (replicate 2097153 (0 :: 8 word))
             = replicate 2097153 0 # chunks CHUNK_SIZE []"
    by (subst chunks_Cons) (simp_all add: C)
  finally show ?thesis
    by (simp add: chunks_Nil)
qed

lemma big_part_paths:
  "part_path ''/tmp/v.mp4'' 1 = ''/tmp/v.mp4.part001''"
  "part_path ''/tmp/v.mp4'' 2 = ''/tmp/v.mp4.part002''"
  by code_simp+

lemma big_part_basenames:
  "basename ''/tmp/v.mp4.part001'' = ''v.mp4.part001''"
  "basename ''/tmp/v.mp4.part002'' = ''v.mp4.part002''"
  by code_simp+

lemma big_part_names:
  "part_names ''/tmp/v.mp4'' 1 (length (chunks CHUNK_SIZE (replicate 52428801 (0 :: 8 word))))
   = [''/tmp/v.mp4.part001'', ''/tmp/v.mp4.part002'']"
proof -
  have "part_names ''/tmp/v.mp4'' 1 (Suc (Suc 0))
        = [part_path ''/tmp/v.mp4'' 1, part_path ''/tmp/v.mp4'' 2]"
    by (simp add: part_names_Suc part_names_0 Suc_1 [symmetric] del: Suc_1 One_nat_def)
  then show ?thesis
    by (simp add: big_chunks big_part_paths big_part_paths [unfolded One_nat_def])
qed

lemma flaky_accepts_first:
  "accepted flaky_env (''/tmp/v.mp4.part001'', c)"
  by (simp add: accepted_def flaky_env_def big_part_basenames)

lemma flaky_rejects_second:
  "\<not> accepted flaky_env (''/tmp/v.mp4.part002'', c)"
  by (simp add: accepted_def flaky_env_def big_part_basenames)

lemma flaky_not_locked: "\<not> locked flaky_env q"
  by (simp add: flaky_env_def)

section \<open>Claims about the orchestrator\<close>

lemma sublist_map_iff: "sublist ys (map f xs) \<longleftrightarrow> (\<exists>w. sublist w xs \<and> map f w = ys)"
proof
  assume "sublist ys (map f xs)"
  then have "\<exists>w. sublist w xs \<and> ys = map f w"
    by (rule sublist_map_rightE)
  then show "\<exists>w. sublist w xs \<and> map f w = ys"
    by auto
next
  assume "\<exists>w. sublist w xs \<and> map f w = ys"
  then show "sublist ys (map f xs)"
    by (auto intro: map_mono_sublist)
qed

lemma contains_ci_lower: "contains_ci kw text \<longleftrightarrow> sublist (lower kw) (lower text)"
  by (simp add: contains_ci_def lower_def sublist_map_iff)

lemma lower_keywords:
  "lower ''age-restricted'' = ''age-restricted''" "lower ''login'' = ''login''"
  "lower ''private'' = ''private''"
  by code_simp+

lemma restricted_iff:
  "restricted msg \<longleftrightarrow>
     contains_ci ''age-restricted'' msg \<or> contains_ci ''login'' msg \<or> contains_ci ''private'' msg"
  by (simp add: restricted_def contains_ci_lower lower_keywords)

text \<open>
  C5. When the fetcher fails and the two text-message calls return, the request ends as
  failed with exactly two status texts, the acknowledgement and the failure message, and
  touches no file. If the cause text contains one of the keywords \<^verbatim>\<open>age-restricted\<close>,
  \<^verbatim>\<open>login\<close>, \<^verbatim>\<open>private\<close> in any letter case, the failure message is the failure
  prefix, the raw cause text and the credential hint, so it contains both the cause and
  the hint; if the cause contains none of them, the message is the prefix and the cause
  and nothing else.
\<close>

theorem download_failure_hint:
  assumes "fetch e url = Inl msg"
  shows "handle_download e url fs0 =
           (Failed, \<lparr>disk = fs0,
                     trace = [ReplyText (queued_text url), EditText (download_failed_text msg)]\<rparr>)
         \<and> (contains_ci ''age-restricted'' msg \<or> contains_ci ''login'' msg
              \<or> contains_ci ''private'' msg \<longrightarrow>
              download_failed_text msg = cross_mark @ '' Download failed: '' @ msg @ cookie_hint
              \<and> sublist msg (download_failed_text msg)
              \<and> sublist cookie_hint (download_failed_text msg))
         \<and> (\<not> (contains_ci ''age-restricted'' msg \<or> contains_ci ''login'' msg
                 \<or> contains_ci ''private'' msg) \<longrightarrow>
              download_failed_text msg = cross_mark @ '' Download failed: '' @ msg)"
proof (intro conjI impI)
  show "handle_download e url fs0 =
           (Failed, \<lparr>disk = fs0,
                     trace = [ReplyText (queued_text url), EditText (download_failed_text msg)]\<rparr>)"
    using assms by (rule handle_download_fetch_failed)
next
  assume "contains_ci ''age-restricted'' msg \<or> contains_ci ''login'' msg
          \<or> contains_ci ''private'' msg"
  then have r: "restricted msg"
    by (simp only: restricted_iff)
  then show eq: "download_failed_text msg = cross_mark @ '' Download failed: '' @ msg @ cookie_hint"
    by (simp add: download_failed_text_def)
  have "sublist msg ((cross_mark @ '' Download failed: '') @ msg @ cookie_hint)"
    by (rule sublist_appendI)
  then show "sublist msg (download_failed_text msg)"
    by (simp add: eq)
  have "sublist cookie_hint ((cross_mark @ '' Download failed: '' @ msg) @ cookie_hint @ [])"
    by (rule sublist_appendI)
  then show "sublist cookie_hint (download_failed_text msg)"
    by (simp add: eq)
next
  assume "\<not> (contains_ci ''age-restricted'' msg \<or> contains_ci ''login'' msg
          \<or> contains_ci ''private'' msg)"
  then have "\<not> restricted msg"
    by (simp add: restricted_iff)
  then show "download_failed_text msg = cross_mark @ '' Download failed: '' @ msg"
    by (simp add: download_failed_text_def)
qed

theorem download_failure_hint_witness:
  "snd (handle_download login_env ''https://youtu.be/x'' Map.empty) =
     \<lparr>disk = Map.empty,
      trace = [ReplyText (queued_text ''https://youtu.be/x''),
               EditText (cross_mark @ '' Download failed: ''
                         @ ''yt-dlp DownloadError: Please LOGIN first'' @ cookie_hint)]\<rparr>
   \<and> snd (handle_download timeout_env ''https://youtu.be/x'' Map.empty) =
     \<lparr>disk = Map.empty,
      trace = [ReplyText (queued_text ''https://youtu.be/x''),
               EditText (cross_mark @ '' Download failed: ''
                         @ ''yt-dlp DownloadError: timed out'')]\<rparr>"
proof -
  have f1: "fetch login_env ''https://youtu.be/x'' = Inl ''yt-dlp DownloadError: Please LOGIN first''"
    by (simp add: login_env_def)
  have f2: "fetch timeout_env ''https://youtu.be/x'' = Inl ''yt-dlp DownloadError: timed out''"
    by (simp add: timeout_env_def)
  have "sublist ''LOGIN'' (''yt-dlp DownloadError: Please '' @ ''LOGIN'' @ '' first'')"
    by (rule sublist_appendI)
  moreover have "lower ''LOGIN'' = lower ''login''"
    by code_simp
  ultimately have yes: "contains_ci ''login'' ''yt-dlp DownloadError: Please LOGIN first''"
    unfolding contains_ci_def by (intro exI [of _ "''LOGIN''"]) simp
  have no: "\<not> (contains_ci ''age-restricted'' ''yt-dlp DownloadError: timed out''
               \<or> contains_ci ''login'' ''yt-dlp DownloadError: timed out''
               \<or> contains_ci ''private'' ''yt-dlp DownloadError: timed out'')"
    unfolding contains_ci_lower by code_simp
  show ?thesis
    using download_failure_hint [OF f1, of Map.empty] download_failure_hint [OF f2, of Map.empty]
      yes no
    by simp
qed

lemma kind_queued: "\<not> is_progress (queued_text url)" "\<not> is_terminal (queued_text url)"
  by (simp_all add: is_progress_def is_terminal_def is_success_def is_failure_def queued_text_def
        done_file_text_def done_parts_text_def cross_mark_def check_mark_def)

lemma kind_uploading:
  "is_progress (uploading_text p n)" "\<not> is_terminal (uploading_text p n)"
  by (simp_all add: is_progress_def is_terminal_def is_success_def is_failure_def
        uploading_text_def done_file_text_def done_parts_text_def cross_mark_def check_mark_def)

lemma kind_splitting:
  "is_progress (splitting_text n)" "\<not> is_terminal (splitting_text n)"
  by (simp_all add: is_progress_def is_terminal_def is_success_def is_failure_def
        splitting_text_def done_file_text_def done_parts_text_def cross_mark_def check_mark_def)

lemma kind_done:
  "is_terminal done_file_text" "is_success done_file_text" "\<not> is_progress done_file_text"
  "is_terminal done_parts_text" "is_success done_parts_text" "\<not> is_progress done_parts_text"
  by (simp_all add: is_progress_def is_terminal_def is_success_def
        done_file_text_def done_parts_text_def check_mark_def)

lemma kind_download_failed:
  "is_terminal (download_failed_text msg)" "\<not> is_success (download_failed_text msg)"
  "\<not> is_progress (download_failed_text msg)"
  by (simp_all add: is_progress_def is_terminal_def is_success_def is_failure_def
        download_failed_text_def done_file_text_def done_parts_text_def cross_mark_def
        check_mark_def)

lemma kind_access_failed:
  "is_terminal (access_failed_text c)" "\<not> is_success (access_failed_text c)"
  "\<not> is_progress (access_failed_text c)"
  by (simp_all add: is_progress_def is_terminal_def is_success_def is_failure_def
        access_failed_text_def done_file_text_def done_parts_text_def check_mark_def)

lemma kind_upload_failed:
  "is_terminal (upload_failed_text c)" "\<not> is_success (upload_failed_text c)"
  "\<not> is_progress (upload_failed_text c)"
  by (simp_all add: is_progress_def is_terminal_def is_success_def is_failure_def
        upload_failed_text_def done_file_text_def done_parts_text_def check_mark_def)

lemma kind_split_failed:
  "is_terminal (split_failed_text c)" "\<not> is_success (split_failed_text c)"
  "\<not> is_progress (split_failed_text c)"
  by (simp_all add: is_progress_def is_terminal_def is_success_def is_failure_def
        split_failed_text_def done_file_text_def done_parts_text_def check_mark_def)

lemmas kinds = kind_queued kind_uploading kind_splitting kind_done kind_download_failed
  kind_access_failed kind_upload_failed kind_split_failed

lemma messages_sent_and_removed: "messages (concat (map sent_and_removed zs)) = []"
  by (induction zs) (simp_all add: sent_and_removed_def)

lemma messages_split_tail:
  "messages (split_tail e p rest) =
     (case rest of
        [] \<Rightarrow> [EditText done_parts_text]
      | qc # _ \<Rightarrow> [EditText (split_failed_text (the (transport e (basename (fst qc)) (snd qc))))])"
  by (simp add: split_tail_def split: list.split)

lemma stream_shapeI:
  assumes "messages (trace (snd r)) = ReplyText (queued_text url) # map EditText (prog @ [final])"
    and "prog = [] \<or> (\<exists>t. prog = [t] \<and> is_progress t \<and> \<not> is_terminal t)"
    and "is_terminal final" and "\<not> is_progress final"
    and "is_success final \<longleftrightarrow> fst r = Done"
  shows "\<exists>prog final.
           messages (trace (snd r)) = ReplyText (queued_text url) # map EditText (prog @ [final])
           \<and> (prog = [] \<or> (\<exists>t. prog = [t] \<and> is_progress t \<and> \<not> is_terminal t))
           \<and> is_terminal final \<and> \<not> is_progress final
           \<and> \<not> is_terminal (queued_text url) \<and> \<not> is_progress (queued_text url)
           \<and> (is_success final \<longleftrightarrow> fst r = Done)"
  using assms kind_queued by blast

lemma stream_shape_accepting:
  "\<exists>prog final.
     messages (trace (snd (handle_download e url fs0)))
       = ReplyText (queued_text url) # map EditText (prog @ [final])
     \<and> (prog = [] \<or> (\<exists>t. prog = [t] \<and> is_progress t \<and> \<not> is_terminal t))
     \<and> is_terminal final \<and> \<not> is_progress final
     \<and> \<not> is_terminal (queued_text url) \<and> \<not> is_progress (queued_text url)
     \<and> (is_success final \<longleftrightarrow> fst (handle_download e url fs0) = Done)"
proof (cases "fetch e url")
  case (Inl msg)
  show ?thesis
    by (rule stream_shapeI [where prog = "[]" and final = "download_failed_text msg"])
       (simp_all add: handle_download_fetch_failed [OF Inl] kinds)
next
  case (Inr p)
  show ?thesis
  proof (cases "fs0 p")
    case None
    show ?thesis
      by (rule stream_shapeI [where prog = "[]" and final = "access_failed_text (no_such_file p)"])
         (simp_all add: handle_download_access_failed [where ?fs0.0 = fs0, OF Inr None] kinds)
  next
    case (Some d)
    show ?thesis
    proof (cases "length d \<le> TG_SIZE_LIMIT")
      case True
      note h = handle_download_direct [where ?fs0.0 = fs0, OF Inr Some True]
      show ?thesis
      proof (cases "transport e (basename p) d")
        case None
        show ?thesis
          by (rule stream_shapeI [where prog = "[uploading_text p (length d)]"
                and final = done_file_text])
             (simp_all add: h None kinds)
      next
        case (Some cause)
        show ?thesis
          by (rule stream_shapeI [where prog = "[uploading_text p (length d)]"
                and final = "upload_failed_text cause"])
             (simp_all add: h Some kinds)
      qed
    next
      case False
      then have big: "TG_SIZE_LIMIT < length d"
        by simp
      define zs where "zs = zip (part_names p 1 (length (chunks CHUNK_SIZE d))) (chunks CHUNK_SIZE d)"
      note run = split_run [where ?fs0.0 = fs0, OF Inr Some big, folded zs_def]
      have msgs: "messages (trace (snd (handle_download e url fs0))) =
                    [ReplyText (queued_text url), EditText (splitting_text (length d))]
                    @ messages (split_tail e p (dropWhile (accepted e) zs))"
        by (simp add: run(2) messages_append messages_sent_and_removed)
      show ?thesis
      proof (cases "dropWhile (accepted e) zs")
        case Nil
        show ?thesis
          by (rule stream_shapeI [where prog = "[splitting_text (length d)]"
                and final = done_parts_text])
             (simp_all add: msgs run(1) messages_split_tail Nil kinds)
      next
        case (Cons qc rest)
        show ?thesis
          by (rule stream_shapeI [where prog = "[splitting_text (length d)]"
                and final = "split_failed_text (the (transport e (basename (fst qc)) (snd qc)))"])
             (simp_all add: msgs run(1) messages_split_tail Cons kinds)
      qed
    qed
  qed
qed

lemma moody_other_texts:
  "moody_sink (queued_text url) = None"
  "moody_sink (splitting_text n) = None"
  "moody_sink (uploading_text p n) = None"
  "moody_sink done_file_text = None"
  "moody_sink (split_failed_text c) = None"
  "moody_sink done_parts_text = Some ''Timed out''"
  by (simp_all add: moody_sink_def queued_text_def splitting_text_def uploading_text_def
        done_file_text_def split_failed_text_def done_parts_text_def check_mark_def em_dash_def)

lemma steady_accepts: "accepted steady_env qc"
  by (simp add: accepted_def steady_env_def)

lemma moody_small_run_delivered:
  "texts_delivered moody_sink
     (trace (snd (handle_download_on moody_sink steady_env ''https://youtu.be/x'' limit_disk)))"
  by (simp add: handle_download_on_def reply_text_def edit_text_def last_edit_def getsize_def
        direct_send_def send_file_def trace_emit disk_emit trace_os_remove
        texts_delivered_append texts_delivered_Cons moody_other_texts steady_env_def
        limit_disk_def TG_SIZE_LIMIT_def)

text \<open>
  C7, as stated, fails. On a download of 50 MiB plus one byte whose two parts are both
  uploaded, let the call that edits the status to the success text time out: it stands
  inside the \<^verbatim>\<open>try\<close> (line 180), so the \<^verbatim>\<open>except\<close> clause edits the status again, to a
  failure text. The handler has then issued two terminal texts. And when the first call,
  the acknowledgement, times out, the exception leaves the handler and no terminal text
  is issued at all.
\<close>

theorem terminal_text_counterexample:
  "messages (trace (snd (handle_download_on moody_sink steady_env ''https://youtu.be/x'' big_disk)))
     = [ReplyText (queued_text ''https://youtu.be/x''),
        EditText (splitting_text 52428801),
        EditText done_parts_text,
        EditText (split_failed_text ''Timed out'')]
   \<and> is_terminal done_parts_text
   \<and> is_terminal (split_failed_text ''Timed out'')
   \<and> messages (trace (snd (handle_download_on silent_sink steady_env ''https://youtu.be/x'' big_disk)))
     = [ReplyText (queued_text ''https://youtu.be/x'')]
   \<and> \<not> is_terminal (queued_text ''https://youtu.be/x'')"
proof -
  let ?u = "''https://youtu.be/x''"
  let ?ps = "[''/tmp/v.mp4.part001'', ''/tmp/v.mp4.part002'']"
  let ?cs = "[replicate 50331648 (0 :: 8 word), replicate 2097153 0]"
  let ?w = "\<lparr>disk = big_disk ++ map_of (zip ?ps ?cs),
             trace = [ReplyText (queued_text ?u),
                      EditText (splitting_text (length (replicate 52428801 (0 :: 8 word))))]\<rparr>"
  let ?r = "upload_parts steady_env ?ps ?w"
  note h = handle_download_on_split
    [where sink = moody_sink and ?fs0.0 = big_disk and e = steady_env and url = ?u,
      OF moody_other_texts(1) moody_other_texts(2) steady_fetch big_disk_file big_file_over_limit,
      unfolded big_part_names, unfolded big_chunks]
  have dist: "distinct ?ps"
    by simp
  have on_disk: "map (disk ?w) ?ps = map Some ?cs"
    by (simp add: map_add_def)
  note up = upload_parts_closed [OF dist on_disk, of steady_env]
  have tw: "takeWhile (accepted steady_env) (zip ?ps ?cs) = zip ?ps ?cs"
    by (simp add: steady_accepts)
  have dw: "dropWhile (accepted steady_env) (zip ?ps ?cs) = []"
    by (simp add: steady_accepts)
  define w2 where "w2 = snd ?r"
  have "fst ?r = None"
    by (simp only: up(1) dw) (simp add: failure_cause_def)
  then have r: "?r = (None, w2)"
    unfolding w2_def by (metis prod.collapse)
  have res: "handle_download_on moody_sink steady_env ?u big_disk
             = (Failed, emit (EditText (split_failed_text ''Timed out''))
                          (emit (EditText done_parts_text)
                             (os_remove steady_env ''/tmp/v.mp4'' w2)))"
    by (subst h, subst r) (simp add: edit_text_def last_edit_def moody_other_texts)
  have m: "messages (trace w2)
           = [ReplyText (queued_text ?u), EditText (splitting_text 52428801)]"
    unfolding w2_def
    by (simp only: up(2) dw tw messages_append messages_sent_and_removed)
       (simp add: failed_attempt_def)
  have a: "messages (trace (snd (handle_download_on moody_sink steady_env ?u big_disk)))
     = [ReplyText (queued_text ?u), EditText (splitting_text 52428801),
        EditText done_parts_text, EditText (split_failed_text ''Timed out'')]"
    by (simp add: res trace_emit trace_os_remove messages_append m)
  have b: "messages (trace (snd (handle_download_on silent_sink steady_env ?u big_disk)))
     = [ReplyText (queued_text ?u)]"
    by (simp add: handle_download_on_def reply_text_def silent_sink_def trace_emit)
  show ?thesis
    by (intro conjI) (rule a b kind_done kind_split_failed kind_queued)+
qed

text \<open>
  C7, amended. For every request in which every text-message call returns, whatever the
  fetcher, the transport and the file system do, the status texts are: first the
  acknowledgement (sent as a reply), then at most one progress text, then exactly one
  terminal text, the last two as edits of the status message. The acknowledgement and
  the progress text are not terminal texts, the terminal text is not a progress text, and
  it is a success text exactly when the request ended as done.
\<close>

theorem message_stream_shape:
  assumes "texts_delivered sink (trace (snd (handle_download_on sink e url fs0)))"
  shows "\<exists>prog final.
     messages (trace (snd (handle_download_on sink e url fs0)))
       = ReplyText (queued_text url) # map EditText (prog @ [final])
     \<and> (prog = [] \<or> (\<exists>t. prog = [t] \<and> is_progress t \<and> \<not> is_terminal t))
     \<and> is_terminal final \<and> \<not> is_progress final
     \<and> \<not> is_terminal (queued_text url) \<and> \<not> is_progress (queued_text url)
     \<and> (is_success final \<longleftrightarrow> fst (handle_download_on sink e url fs0) = Done)"
  using stream_shape_accepting [of e url fs0]
  by (simp only: handle_download_on_delivered [OF assms])

theorem message_stream_shape_witness:
  "texts_delivered moody_sink
     (trace (snd (handle_download_on moody_sink steady_env ''https://youtu.be/x'' limit_disk)))
   \<and> moody_sink done_parts_text \<noteq> None
   \<and> (\<exists>prog final.
     messages (trace (snd (handle_download_on moody_sink steady_env ''https://youtu.be/x'' limit_disk)))
       = ReplyText (queued_text ''https://youtu.be/x'') # map EditText (prog @ [final])
     \<and> (prog = [] \<or> (\<exists>t. prog = [t] \<and> is_progress t \<and> \<not> is_terminal t))
     \<and> is_terminal final \<and> \<not> is_progress final
     \<and> \<not> is_terminal (queued_text ''https://youtu.be/x'')
     \<and> \<not> is_progress (queued_text ''https://youtu.be/x'')
     \<and> (is_success final \<longleftrightarrow>
          fst (handle_download_on moody_sink steady_env ''https://youtu.be/x'' limit_disk) = Done))"
  using message_stream_shape [OF moody_small_run_delivered] moody_small_run_delivered
    moody_other_texts(6)
  by simp

lemma zip_with_bytes:
  assumes "map (contents fs) ps = cs"
  shows "zip ps cs = map (with_bytes fs) ps"
proof -
  have "zip ps (map (contents fs) ps) = map (with_bytes fs) ps"
    by (induction ps) (simp_all add: with_bytes_def)
  then show ?thesis
    using assms by simp
qed


lemma uploads_sent_and_removed:
  "uploads (concat (map sent_and_removed zs)) = map as_upload zs"
  by (induction zs) (simp_all add: sent_and_removed_def as_upload_def)

lemma uploads_split_tail: "uploads (split_tail e p rest) = map as_upload (take 1 rest)"
  by (cases rest) (simp_all add: split_tail_def as_upload_def)

lemma as_upload_with_bytes: "as_upload (with_bytes fs q) = (basename q, contents fs q)"
  by (simp add: as_upload_def with_bytes_def)

lemma take_part_names:
  assumes "k \<le> n"
  shows "take k (part_names p 1 n) = part_names p 1 k"
proof -
  have "take k [1..<1 + n] = [1..<1 + k]"
    by (rule take_upt) (use assms in simp)
  then show ?thesis
    by (simp only: part_names_def take_map)
qed

lemma part_names_basename:
  "map basename (part_names p 1 k) = map (\<lambda>i. basename p @ ''.part'' @ fmt03d i) [1..<Suc k]"
  by (simp add: part_names_def basename_part_path)

lemma distinct_part_basenames: "distinct (map basename (part_names p idx k))"
proof -
  have "inj_on (\<lambda>i. basename (part_path p i)) (set [idx..<idx + k])"
    by (rule inj_onI) (simp add: basename_part_path fmt03d_inj)
  then show ?thesis
    by (simp add: part_names_def distinct_map comp_def)
qed

lemma attempted_Nil: "attempted e fs [] = []"
  by (simp add: attempted_def)

lemma attempted_Cons:
  "attempted e fs (q # qs) = (if goes_through e fs q then q # attempted e fs qs else [q])"
  by (simp add: attempted_def)

lemma attempted_take: "attempted e fs ps = take (length (attempted e fs ps)) ps"
  by (induction ps) (simp_all add: attempted_Nil attempted_Cons)

lemma attempted_nonempty: "ps \<noteq> [] \<Longrightarrow> attempted e fs ps \<noteq> []"
  by (cases ps) (simp_all add: attempted_Cons)

lemma attempted_all: "list_all (goes_through e fs) ps \<Longrightarrow> attempted e fs ps = ps"
  by (induction ps) (simp_all add: attempted_Nil attempted_Cons)

lemma attempted_length: "length (attempted e fs ps) \<le> length ps"
proof -
  have "length (take (length (attempted e fs ps)) ps) \<le> length ps"
    by simp
  then show ?thesis
    by (simp only: attempted_take [symmetric])
qed

lemma hd_attempted: "ps \<noteq> [] \<Longrightarrow> hd (attempted e fs ps) = hd ps"
  by (cases ps) (simp_all add: attempted_Cons)

lemma split_run_exact:
  fixes e :: env and url p :: string and fs0 :: filesystem and d :: bytes
  assumes "fetch e url = Inr p" and "fs0 p = Some d" and "TG_SIZE_LIMIT < length d"
  obtains parts fs' where
    "split_file fs0 p CHUNK_SIZE = Inr (parts, fs')"
    and "parts = part_names p 1 (length parts)"
    and "map (contents fs') parts = chunks CHUNK_SIZE d"
    and "parts \<noteq> []"
    and "fst (handle_download e url fs0)
           = (if list_all (goes_through e fs') parts then Done else Failed)"
    and "uploads (trace (snd (handle_download e url fs0)))
           = map (\<lambda>q. (basename q, contents fs' q)) (attempted e fs' parts)"
proof -
  define parts where "parts = part_names p 1 (length (chunks CHUNK_SIZE d))"
  define fs' where "fs' = fs0 ++ map_of (zip parts (chunks CHUNK_SIZE d))"
  define zs where "zs = zip parts (chunks CHUNK_SIZE d)"
  note f = split_file_facts [where fs = fs0 and path = p and d = d and C = CHUNK_SIZE,
      OF assms(2) readable_CHUNK_SIZE, folded parts_def, folded fs'_def]
  note run = split_run [where ?fs0.0 = fs0, OF assms, folded parts_def, folded zs_def]
  have len: "length parts = length (chunks CHUNK_SIZE d)"
    by (rule f(2))
  have zs: "zs = map (with_bytes fs') parts"
    unfolding zs_def using f(8) by (rule zip_with_bytes)
  have acc: "accepted e \<circ> with_bytes fs' = goes_through e fs'"
    by (rule ext) (simp add: accepted_def with_bytes_def goes_through_def)
  have tw: "takeWhile (accepted e) zs = map (with_bytes fs') (takeWhile (goes_through e fs') parts)"
    by (simp only: zs takeWhile_map acc)
  have dw: "dropWhile (accepted e) zs = map (with_bytes fs') (dropWhile (goes_through e fs') parts)"
    by (simp only: zs dropWhile_map acc)
  have empty: "dropWhile (accepted e) zs = [] \<longleftrightarrow> list_all (goes_through e fs') parts"
    by (simp add: dw list_all_iff)
  have "d \<noteq> []"
    using assms(3) by auto
  then have "chunks CHUNK_SIZE d \<noteq> []"
    by (subst chunks_Cons) (simp_all add: CHUNK_SIZE_def)
  then have ne: "parts \<noteq> []"
    using len by auto
  have "uploads (trace (snd (handle_download e url fs0)))
        = uploads [ReplyText (queued_text url), EditText (splitting_text (length d))]
          @ map as_upload (map (with_bytes fs') (takeWhile (goes_through e fs') parts))
          @ map as_upload (take 1 (map (with_bytes fs') (dropWhile (goes_through e fs') parts)))"
    by (simp only: run(2) uploads_append uploads_sent_and_removed uploads_split_tail tw dw)
  also have "\<dots> = map as_upload (map (with_bytes fs') (attempted e fs' parts))"
    by (simp add: take_map attempted_def)
  finally have ups: "uploads (trace (snd (handle_download e url fs0)))
        = map (\<lambda>q. (basename q, contents fs' q)) (attempted e fs' parts)"
    by (simp add: as_upload_with_bytes comp_def)
  show thesis
  proof (rule that [of parts fs'])
    show "split_file fs0 p CHUNK_SIZE = Inr (parts, fs')"
      by (rule f(1))
    show "parts = part_names p 1 (length parts)"
      by (simp only: len) (rule parts_def)
    show "map (contents fs') parts = chunks CHUNK_SIZE d"
      by (rule f(8))
    show "parts \<noteq> []"
      by (rule ne)
    show "fst (handle_download e url fs0)
           = (if list_all (goes_through e fs') parts then Done else Failed)"
      by (simp only: run(1) empty)
    show "uploads (trace (snd (handle_download e url fs0)))
           = map (\<lambda>q. (basename q, contents fs' q)) (attempted e fs' parts)"
      by (rule ups)
  qed
qed

lemma big_split:
  "split_file big_disk ''/tmp/v.mp4'' CHUNK_SIZE =
     Inr ([''/tmp/v.mp4.part001'', ''/tmp/v.mp4.part002''],
          big_disk ++ map_of (zip [''/tmp/v.mp4.part001'', ''/tmp/v.mp4.part002'']
                                  [replicate 50331648 0, replicate 2097153 0]))"
  using split_file_Inr [where fs = big_disk, OF big_disk_file readable_CHUNK_SIZE,
      unfolded big_part_names, unfolded big_chunks] .

lemma steady_goes_through: "goes_through steady_env fs q"
  by (simp add: goes_through_def steady_env_def)

lemma steady_all_go_through: "list_all (goes_through steady_env fs) ps"
  by (simp add: list_all_iff steady_goes_through)

text \<open>
  C4. In the large-file branch, with every text-message call returning, \<^verbatim>\<open>split_file\<close>
  returns a list of at least one part, and the uploads handed to the transport are
  exactly these: each part of that list, in the order of the list, up to and including
  the first part that the transport rejects, each under its base name and with the bytes
  of its part file. So at least one part is uploaded, the upload in position \<open>j\<close> carries
  sequence number \<open>j\<close>, sequence numbers strictly increase along the uploads and no part
  is uploaded twice. The request ends as done exactly when the transport accepts every
  part, and then every part was uploaded.
\<close>

theorem parts_uploaded_in_order:
  assumes "fetch e url = Inr p" and "fs0 p = Some d" and "TG_SIZE_LIMIT < length d"
  shows "\<exists>parts fs'.
           split_file fs0 p CHUNK_SIZE = Inr (parts, fs')
           \<and> parts \<noteq> []
           \<and> uploads (trace (snd (handle_download e url fs0)))
               = map (\<lambda>q. (basename q, contents fs' q)) (attempted e fs' parts)
           \<and> attempted e fs' parts = take (length (attempted e fs' parts)) parts
           \<and> attempted e fs' parts \<noteq> []
           \<and> map fst (uploads (trace (snd (handle_download e url fs0))))
               = map (\<lambda>i. basename p @ ''.part'' @ fmt03d i)
                     [1..<Suc (length (attempted e fs' parts))]
           \<and> distinct (map fst (uploads (trace (snd (handle_download e url fs0)))))
           \<and> (fst (handle_download e url fs0) = Done \<longleftrightarrow> list_all (goes_through e fs') parts)
           \<and> (list_all (goes_through e fs') parts \<longrightarrow> attempted e fs' parts = parts)"
proof (rule split_run_exact [where ?fs0.0 = fs0 and e = e and url = url, OF assms])
  fix parts fs'
  assume sf: "split_file fs0 p CHUNK_SIZE = Inr (parts, fs')"
    and names: "parts = part_names p 1 (length parts)"
    and "map (contents fs') parts = chunks CHUNK_SIZE d"
    and ne: "parts \<noteq> []"
    and out: "fst (handle_download e url fs0)
           = (if list_all (goes_through e fs') parts then Done else Failed)"
    and ups: "uploads (trace (snd (handle_download e url fs0)))
           = map (\<lambda>q. (basename q, contents fs' q)) (attempted e fs' parts)"
  define K where "K = length (attempted e fs' parts)"
  have K: "K \<le> length parts"
    unfolding K_def by (rule attempted_length)
  have tk: "attempted e fs' parts = take K parts"
    unfolding K_def by (rule attempted_take)
  have tkn: "take K parts = part_names p 1 K"
    by (subst names) (rule take_part_names [OF K])
  have fsts: "map fst (uploads (trace (snd (handle_download e url fs0))))
              = map basename (part_names p 1 K)"
    by (simp add: ups tk tkn comp_def)
  have c3: "attempted e fs' parts = take (length (attempted e fs' parts)) parts"
    by (rule attempted_take)
  have c4: "attempted e fs' parts \<noteq> []"
    using ne by (rule attempted_nonempty)
  have c5: "map fst (uploads (trace (snd (handle_download e url fs0))))
              = map (\<lambda>i. basename p @ ''.part'' @ fmt03d i)
                    [1..<Suc (length (attempted e fs' parts))]"
    by (simp only: fsts part_names_basename K_def)
  have c6: "distinct (map fst (uploads (trace (snd (handle_download e url fs0)))))"
    by (simp only: fsts distinct_part_basenames)
  have c7: "fst (handle_download e url fs0) = Done \<longleftrightarrow> list_all (goes_through e fs') parts"
    by (simp add: out)
  have c8: "list_all (goes_through e fs') parts \<longrightarrow> attempted e fs' parts = parts"
    by (simp add: attempted_all)
  show ?thesis
    by (intro exI [of _ parts] exI [of _ fs'] conjI) (rule sf ne ups c3 c4 c5 c6 c7 c8)+
qed

theorem parts_uploaded_in_order_witness:
  "fst (handle_download steady_env ''https://youtu.be/x'' big_disk) = Done
   \<and> uploads (trace (snd (handle_download steady_env ''https://youtu.be/x'' big_disk)))
       = [(''v.mp4.part001'', replicate 50331648 0), (''v.mp4.part002'', replicate 2097153 0)]"
proof -
  obtain parts fs' where
    sf: "split_file big_disk ''/tmp/v.mp4'' CHUNK_SIZE = Inr (parts, fs')"
    and ups: "uploads (trace (snd (handle_download steady_env ''https://youtu.be/x'' big_disk)))
               = map (\<lambda>q. (basename q, contents fs' q)) (attempted steady_env fs' parts)"
    and out: "fst (handle_download steady_env ''https://youtu.be/x'' big_disk) = Done
               \<longleftrightarrow> list_all (goes_through steady_env fs') parts"
    and full: "list_all (goes_through steady_env fs') parts
               \<longrightarrow> attempted steady_env fs' parts = parts"
    using parts_uploaded_in_order
      [of steady_env "''https://youtu.be/x''" "''/tmp/v.mp4''" big_disk "replicate 52428801 0",
        OF steady_fetch big_disk_file big_file_over_limit]
    by auto
  have parts: "parts = [''/tmp/v.mp4.part001'', ''/tmp/v.mp4.part002'']"
    and fs': "fs' = big_disk ++ map_of (zip [''/tmp/v.mp4.part001'', ''/tmp/v.mp4.part002'']
                                  [replicate 50331648 0, replicate 2097153 0])"
    using sf unfolding big_split by auto
  have a: "fst (handle_download steady_env ''https://youtu.be/x'' big_disk) = Done"
    by (simp only: out steady_all_go_through)
  have att: "attempted steady_env fs' parts = parts"
    using full steady_all_go_through by blast
  have b: "uploads (trace (snd (handle_download steady_env ''https://youtu.be/x'' big_disk)))
       = [(''v.mp4.part001'', replicate 50331648 0), (''v.mp4.part002'', replicate 2097153 0)]"
    by (simp only: ups att) (simp add: parts fs' big_part_basenames contents_def map_add_def)
  show ?thesis
    using a b by (rule conjI)
qed



lemma part_contents_bounded:
  assumes "map (contents fs') parts = chunks CHUNK_SIZE d" and "q \<in> set parts"
  shows "length (contents fs' q) \<le> nat CHUNK_SIZE"
proof -
  have "contents fs' q \<in> set (map (contents fs') parts)"
    using assms(2) by simp
  then have "contents fs' q \<in> set (chunks CHUNK_SIZE d)"
    by (simp only: assms(1))
  then show ?thesis
    by (intro chunks_bounded) (simp_all add: CHUNK_SIZE_def)
qed

text \<open>
  C3. With a fetched file of \<open>N\<close> bytes and every text-message call returning: if \<open>N\<close> is at
  most the inline-attachment limit (50 MiB), the progress text is the uploading text, the
  only upload is the whole file under its base name, and no other file is touched; if
  \<open>N\<close> exceeds the limit, the progress text is the splitting text, \<^verbatim>\<open>split_file\<close> returns
  at least one part, the uploads are the parts it returned, up to and including the first
  one that the transport rejects, the first upload is part 1 with the first 48 MiB of the
  file, and the whole file is not uploaded. So the file is split exactly when
  \<open>N > 50 MiB\<close>.
\<close>

theorem split_iff_over_limit:
  assumes "fetch e url = Inr p" and "fs0 p = Some d"
  shows "TG_SIZE_LIMIT = 50 * 1024 * 1024
         \<and> (length d \<le> TG_SIZE_LIMIT \<longrightarrow>
              messages (trace (snd (handle_download e url fs0))) ! 1
                = EditText (uploading_text p (length d))
              \<and> uploads (trace (snd (handle_download e url fs0))) = [(basename p, d)]
              \<and> (\<forall>q. q \<noteq> p \<longrightarrow> disk (snd (handle_download e url fs0)) q = fs0 q))
         \<and> (TG_SIZE_LIMIT < length d \<longrightarrow>
              messages (trace (snd (handle_download e url fs0))) ! 1
                = EditText (splitting_text (length d))
              \<and> (\<exists>parts fs'.
                    split_file fs0 p CHUNK_SIZE = Inr (parts, fs')
                    \<and> parts \<noteq> []
                    \<and> uploads (trace (snd (handle_download e url fs0)))
                        = map (\<lambda>q. (basename q, contents fs' q)) (attempted e fs' parts))
              \<and> uploads (trace (snd (handle_download e url fs0))) \<noteq> []
              \<and> hd (uploads (trace (snd (handle_download e url fs0))))
                  = (basename (part_path p 1), take (nat CHUNK_SIZE) d)
              \<and> (basename p, d) \<notin> set (uploads (trace (snd (handle_download e url fs0)))))"
proof (intro conjI impI)
  show "TG_SIZE_LIMIT = 50 * 1024 * 1024"
    by (simp add: TG_SIZE_LIMIT_def)
next
  assume small: "length d \<le> TG_SIZE_LIMIT"
  note h = handle_download_direct [where ?fs0.0 = fs0, OF assms small]
  show "messages (trace (snd (handle_download e url fs0))) ! 1
          = EditText (uploading_text p (length d))"
    by (simp add: h split: option.split)
  show "uploads (trace (snd (handle_download e url fs0))) = [(basename p, d)]"
    by (simp add: h split: option.split)
  show "\<forall>q. q \<noteq> p \<longrightarrow> disk (snd (handle_download e url fs0)) q = fs0 q"
    by (simp add: h split: option.split)
next
  assume big: "TG_SIZE_LIMIT < length d"
  show "messages (trace (snd (handle_download e url fs0))) ! 1
          = EditText (splitting_text (length d))"
    by (simp add: split_run(2) [where ?fs0.0 = fs0, OF assms big] messages_append)
  have all: "(\<exists>parts fs'.
                    split_file fs0 p CHUNK_SIZE = Inr (parts, fs')
                    \<and> parts \<noteq> []
                    \<and> uploads (trace (snd (handle_download e url fs0)))
                        = map (\<lambda>q. (basename q, contents fs' q)) (attempted e fs' parts))
              \<and> uploads (trace (snd (handle_download e url fs0))) \<noteq> []
              \<and> hd (uploads (trace (snd (handle_download e url fs0))))
                  = (basename (part_path p 1), take (nat CHUNK_SIZE) d)
              \<and> (basename p, d) \<notin> set (uploads (trace (snd (handle_download e url fs0))))"
  proof (rule split_run_exact [where ?fs0.0 = fs0 and e = e and url = url, OF assms big])
    fix parts fs'
    assume sf: "split_file fs0 p CHUNK_SIZE = Inr (parts, fs')"
      and names: "parts = part_names p 1 (length parts)"
      and cont: "map (contents fs') parts = chunks CHUNK_SIZE d"
      and ne: "parts \<noteq> []"
      and "fst (handle_download e url fs0)
             = (if list_all (goes_through e fs') parts then Done else Failed)"
      and ups: "uploads (trace (snd (handle_download e url fs0)))
             = map (\<lambda>q. (basename q, contents fs' q)) (attempted e fs' parts)"
    have ane: "attempted e fs' parts \<noteq> []"
      using ne by (rule attempted_nonempty)
    have d: "d \<noteq> []"
      using big by auto
    have ch: "chunks CHUNK_SIZE d = take (nat CHUNK_SIZE) d # chunks CHUNK_SIZE (drop (nat CHUNK_SIZE) d)"
      using d by (intro chunks_Cons) (simp_all add: CHUNK_SIZE_def)
    obtain n where n: "length parts = Suc n"
      using ne by (cases parts) auto
    have "parts = part_path p 1 # part_names p (Suc 1) n"
      by (subst names) (simp only: n part_names_Suc)
    then have hp: "hd parts = part_path p 1"
      by simp
    have "hd (map (contents fs') parts) = take (nat CHUNK_SIZE) d"
      by (simp only: cont) (simp add: ch)
    then have "contents fs' (hd parts) = take (nat CHUNK_SIZE) d"
      using ne by (simp add: hd_map)
    then have hc: "contents fs' (part_path p 1) = take (nat CHUNK_SIZE) d"
      by (simp only: hp)
    have hm: "hd (map (\<lambda>q. (basename q, contents fs' q)) (attempted e fs' parts))
              = (basename (hd (attempted e fs' parts)), contents fs' (hd (attempted e fs' parts)))"
      using ane by (rule hd_map)
    have c1: "\<exists>parts fs'.
                split_file fs0 p CHUNK_SIZE = Inr (parts, fs')
                \<and> parts \<noteq> []
                \<and> uploads (trace (snd (handle_download e url fs0)))
                    = map (\<lambda>q. (basename q, contents fs' q)) (attempted e fs' parts)"
      using sf ne ups by blast
    have c2: "uploads (trace (snd (handle_download e url fs0))) \<noteq> []"
      using ane by (simp add: ups)
    have c3: "hd (uploads (trace (snd (handle_download e url fs0))))
                = (basename (part_path p 1), take (nat CHUNK_SIZE) d)"
      by (simp only: ups hm hd_attempted [OF ne] hp hc)
    have c4: "(basename p, d) \<notin> set (uploads (trace (snd (handle_download e url fs0))))"
    proof
      assume "(basename p, d) \<in> set (uploads (trace (snd (handle_download e url fs0))))"
      then obtain q where q: "q \<in> set (attempted e fs' parts)" and dq: "d = contents fs' q"
        unfolding ups by auto
      have "q \<in> set (take (length (attempted e fs' parts)) parts)"
        using q by (simp only: attempted_take [symmetric])
      then have "q \<in> set parts"
        by (rule in_set_takeD)
      then have "length d \<le> nat CHUNK_SIZE"
        using part_contents_bounded [OF cont] dq by simp
      then show False
        using big by (simp add: CHUNK_SIZE_def TG_SIZE_LIMIT_def)
    qed
    show ?thesis
      by (intro conjI) (rule c1 c2 c3 c4)+
  qed
  show "\<exists>parts fs'.
          split_file fs0 p CHUNK_SIZE = Inr (parts, fs')
          \<and> parts \<noteq> []
          \<and> uploads (trace (snd (handle_download e url fs0)))
              = map (\<lambda>q. (basename q, contents fs' q)) (attempted e fs' parts)"
    using all by blast
  show "uploads (trace (snd (handle_download e url fs0))) \<noteq> []"
    using all by blast
  show "hd (uploads (trace (snd (handle_download e url fs0))))
          = (basename (part_path p 1), take (nat CHUNK_SIZE) d)"
    using all by blast
  show "(basename p, d) \<notin> set (uploads (trace (snd (handle_download e url fs0))))"
    using all by blast
qed

theorem split_iff_over_limit_witness:
  "(messages (trace (snd (handle_download steady_env ''https://youtu.be/x'' limit_disk))) ! 1
      = EditText (uploading_text ''/tmp/v.mp4'' (length (replicate 52428800 (0 :: 8 word))))
    \<and> uploads (trace (snd (handle_download steady_env ''https://youtu.be/x'' limit_disk)))
      = [(basename ''/tmp/v.mp4'', replicate 52428800 0)])
   \<and> (messages (trace (snd (handle_download steady_env ''https://youtu.be/x'' big_disk))) ! 1
      = EditText (splitting_text (length (replicate 52428801 (0 :: 8 word))))
    \<and> uploads (trace (snd (handle_download steady_env ''https://youtu.be/x'' big_disk))) \<noteq> []
    \<and> hd (uploads (trace (snd (handle_download steady_env ''https://youtu.be/x'' big_disk))))
        = (''v.mp4.part001'', replicate 50331648 0)
    \<and> (basename ''/tmp/v.mp4'', replicate 52428801 0)
        \<notin> set (uploads (trace (snd (handle_download steady_env ''https://youtu.be/x'' big_disk)))))"
proof
  show "messages (trace (snd (handle_download steady_env ''https://youtu.be/x'' limit_disk))) ! 1
      = EditText (uploading_text ''/tmp/v.mp4'' (length (replicate 52428800 (0 :: 8 word))))
    \<and> uploads (trace (snd (handle_download steady_env ''https://youtu.be/x'' limit_disk)))
      = [(basename ''/tmp/v.mp4'', replicate 52428800 0)]"
    using split_iff_over_limit
      [of steady_env "''https://youtu.be/x''" "''/tmp/v.mp4''" limit_disk "replicate 52428800 0"]
      steady_fetch limit_disk_file limit_file_at_limit
    by blast
  have first: "(basename (part_path ''/tmp/v.mp4'' 1),
                take (nat CHUNK_SIZE) (replicate 52428801 (0 :: 8 word)))
               = (''v.mp4.part001'', replicate 50331648 0)"
    by (simp add: big_part_paths [unfolded One_nat_def] big_part_basenames CHUNK_SIZE_def)
  have "messages (trace (snd (handle_download steady_env ''https://youtu.be/x'' big_disk))) ! 1
      = EditText (splitting_text (length (replicate 52428801 (0 :: 8 word))))
    \<and> uploads (trace (snd (handle_download steady_env ''https://youtu.be/x'' big_disk))) \<noteq> []
    \<and> hd (uploads (trace (snd (handle_download steady_env ''https://youtu.be/x'' big_disk))))
        = (basename (part_path ''/tmp/v.mp4'' 1),
           take (nat CHUNK_SIZE) (replicate 52428801 (0 :: 8 word)))
    \<and> (basename ''/tmp/v.mp4'', replicate 52428801 0)
        \<notin> set (uploads (trace (snd (handle_download steady_env ''https://youtu.be/x'' big_disk))))"
    using split_iff_over_limit
      [of steady_env "''https://youtu.be/x''" "''/tmp/v.mp4''" big_disk "replicate 52428801 0"]
      steady_fetch big_disk_file big_file_over_limit
    by blast
  then show "messages (trace (snd (handle_download steady_env ''https://youtu.be/x'' big_disk))) ! 1
      = EditText (splitting_text (length (replicate 52428801 (0 :: 8 word))))
    \<and> uploads (trace (snd (handle_download steady_env ''https://youtu.be/x'' big_disk))) \<noteq> []
    \<and> hd (uploads (trace (snd (handle_download steady_env ''https://youtu.be/x'' big_disk))))
        = (''v.mp4.part001'', replicate 50331648 0)
    \<and> (basename ''/tmp/v.mp4'', replicate 52428801 0)
        \<notin> set (uploads (trace (snd (handle_download steady_env ''https://youtu.be/x'' big_disk))))"
    unfolding first .
qed

text \<open>
  In the large-file branch a failed request always leaves the downloaded file on disk and
  never tries to remove it.
\<close>

lemma failed_split_leaves_source:
  assumes "fetch e url = Inr p" and "fs0 p = Some d" and "TG_SIZE_LIMIT < length d"
    and "fst (handle_download e url fs0) = Failed"
  shows "disk (snd (handle_download e url fs0)) p = Some d"
    and "Remove p \<notin> set (trace (snd (handle_download e url fs0)))"
proof -
  define zs where "zs = zip (part_names p 1 (length (chunks CHUNK_SIZE d))) (chunks CHUNK_SIZE d)"
  note run = split_run [where ?fs0.0 = fs0, OF assms(1-3), folded zs_def]
  have ne: "dropWhile (accepted e) zs \<noteq> []"
    using run(1) assms(4) by (auto split: if_splits)
  have "p \<notin> fst ` set zs"
    unfolding zs_def using path_notin_part_names [of p 1 "length (chunks CHUNK_SIZE d)"]
    by (auto dest: set_zip_leftD)
  then have notin: "p \<notin> fst ` set (takeWhile (accepted e) zs)"
    by (auto dest: set_takeWhileD)
  have "(fs0 ++ map_of zs) p = fs0 p"
    unfolding zs_def using path_notin_part_names [of p 1 "length (chunks CHUNK_SIZE d)"]
    by (rule map_add_zip_notin)
  then show "disk (snd (handle_download e url fs0)) p = Some d"
    using notin ne assms(2) by (simp add: run(3))
  obtain qc rest where dw: "dropWhile (accepted e) zs = qc # rest"
    using ne by (cases "dropWhile (accepted e) zs") auto
  have "Remove p \<notin> set (concat (map sent_and_removed (takeWhile (accepted e) zs)))"
    using notin by (auto simp: sent_and_removed_def)
  then show "Remove p \<notin> set (trace (snd (handle_download e url fs0)))"
    by (simp add: run(2) dw split_tail_def)
qed

text \<open>
  C2, at a failing input. The download has 50 MiB + 1 bytes, so it is split into two parts
  (48 MiB and 2 MiB + 1). The first part is uploaded and removed; the upload of the second
  part times out; every text-message call returns. The request ends as failed, and both
  the second part file and the downloaded file are still on disk: the handler's
  \<^verbatim>\<open>except\<close> branch of the large-file path only reports the failure, whereas the
  small-file path removes the file in a \<^verbatim>\<open>finally\<close> block.
\<close>

theorem cleanup_skipped_on_part_failure:
  "fst (handle_download flaky_env ''https://youtu.be/x'' big_disk) = Failed
   \<and> file_events (trace (snd (handle_download flaky_env ''https://youtu.be/x'' big_disk)))
       = [SendDocument ''v.mp4.part001'' (replicate 50331648 0),
          Remove ''/tmp/v.mp4.part001'',
          SendDocument ''v.mp4.part002'' (replicate 2097153 0)]
   \<and> disk (snd (handle_download flaky_env ''https://youtu.be/x'' big_disk)) ''/tmp/v.mp4.part001''
       = None
   \<and> disk (snd (handle_download flaky_env ''https://youtu.be/x'' big_disk)) ''/tmp/v.mp4.part002''
       = Some (replicate 2097153 0)
   \<and> disk (snd (handle_download flaky_env ''https://youtu.be/x'' big_disk)) ''/tmp/v.mp4''
       = Some (replicate 52428801 0)"
proof -
  note run = split_run [where ?fs0.0 = big_disk and e = flaky_env and url = "''https://youtu.be/x''",
      OF flaky_fetch big_disk_file big_file_over_limit, unfolded big_part_names, unfolded big_chunks]
  have tw: "takeWhile (accepted flaky_env)
              (zip [''/tmp/v.mp4.part001'', ''/tmp/v.mp4.part002'']
                   [replicate 50331648 (0 :: 8 word), replicate 2097153 0])
            = [(''/tmp/v.mp4.part001'', replicate 50331648 0)]"
    by (simp add: flaky_accepts_first flaky_rejects_second)
  have dw: "dropWhile (accepted flaky_env)
              (zip [''/tmp/v.mp4.part001'', ''/tmp/v.mp4.part002'']
                   [replicate 50331648 (0 :: 8 word), replicate 2097153 0])
            = [(''/tmp/v.mp4.part002'', replicate 2097153 0)]"
    by (simp add: flaky_accepts_first flaky_rejects_second)
  have a: "fst (handle_download flaky_env ''https://youtu.be/x'' big_disk) = Failed"
    by (simp only: run(1) dw) simp
  have b: "file_events (trace (snd (handle_download flaky_env ''https://youtu.be/x'' big_disk)))
       = [SendDocument ''v.mp4.part001'' (replicate 50331648 0),
          Remove ''/tmp/v.mp4.part001'',
          SendDocument ''v.mp4.part002'' (replicate 2097153 0)]"
    by (simp only: run(2) tw dw)
       (simp add: sent_and_removed_def split_tail_def big_part_basenames)
  have d: "disk (snd (handle_download flaky_env ''https://youtu.be/x'' big_disk)) =
           (\<lambda>q. if q = ''/tmp/v.mp4.part001'' then None
                else (big_disk ++ map_of [(''/tmp/v.mp4.part001'', replicate 50331648 0),
                                          (''/tmp/v.mp4.part002'', replicate 2097153 0)]) q)"
    by (simp only: run(3) tw dw) (auto simp: flaky_not_locked)
  have c1: "disk (snd (handle_download flaky_env ''https://youtu.be/x'' big_disk))
              ''/tmp/v.mp4.part001'' = None"
    unfolding d by simp
  have c2: "disk (snd (handle_download flaky_env ''https://youtu.be/x'' big_disk))
              ''/tmp/v.mp4.part002'' = Some (replicate 2097153 0)"
    unfolding d by (simp add: big_disk_def)
  have c3: "disk (snd (handle_download flaky_env ''https://youtu.be/x'' big_disk))
              ''/tmp/v.mp4'' = Some (replicate 52428801 0)"
    unfolding d by (simp add: big_disk_def)
  show ?thesis
    by (intro conjI) (rule a b c1 c2 c3)+
qed

end
